theory Spec2Isabelle
  imports Main
begin

section \<open>The data walked: a model of the reflected Go values\<close>

text \<open>
  The engine of \<^verbatim>\<open>traversal.go\<close> sees the walked data only through
  \<^verbatim>\<open>reflect.Value\<close>: its kind, its type, its length, its elements.
  A value is modelled as a finite tree. The kinds are those of Go's \<^verbatim>\<open>reflect.Kind\<close>.
\<close>

datatype Kind =
    KInvalid | KBool
  | KInt | KInt8 | KInt16 | KInt32 | KInt64
  | KUint | KUint8 | KUint16 | KUint32 | KUint64 | KUintptr
  | KFloat32 | KFloat64 | KComplex64 | KComplex128
  | KArray | KChan | KFunc | KInterface | KMap | KPtr | KSlice | KString | KStruct
  | KUnsafePointer

record StructField =
  sf_Name :: string
  sf_PkgPath :: string

record Type =
  t_Name :: string
  t_Kind :: Kind
  t_Fields :: "StructField list"

text \<open>
  \<open>Zero\<close> is the zero \<^verbatim>\<open>reflect.Value{}\<close>, the only invalid one. \<open>Scalar\<close> stands for
  every value that has no parts (booleans, numbers, strings, channels, functions, ...):
  its kind, the name of its type, and its content as printed (a NaN prints as \<^verbatim>\<open>NaN\<close>).
  \<open>IfaceV\<close> is a value of an interface type (an element, a key or a field whose static
  type is an interface) with the value it holds. An interface, a slice, a map and a
  pointer may be nil (\<open>None\<close>). The entries of a map are listed in the order in which
  \<^verbatim>\<open>MapKeys\<close> hands out the keys; the keys of a Go map are pairwise different.
\<close>

datatype Value =
    Zero
  | Scalar Kind string string
  | IfaceV string "Value option"
  | ArrayV string "Value list"
  | SliceV string "Value list option"
  | MapV string "(Value \<times> Value) list option"
  | StructV string "(StructField \<times> Value) list"
  | PtrV string "Value option"

fun IsValid :: "Value \<Rightarrow> bool" where
  "IsValid Zero = False"
| "IsValid _ = True"

fun Kind_of :: "Value \<Rightarrow> Kind" where
  "Kind_of Zero = KInvalid"
| "Kind_of (Scalar k _ _) = k"
| "Kind_of (IfaceV _ _) = KInterface"
| "Kind_of (ArrayV _ _) = KArray"
| "Kind_of (SliceV _ _) = KSlice"
| "Kind_of (MapV _ _) = KMap"
| "Kind_of (StructV _ _) = KStruct"
| "Kind_of (PtrV _ _) = KPtr"

text \<open>
  \<^verbatim>\<open>val.Type()\<close>. The engine asks for the type of valid values only (each use is behind an
  \<^verbatim>\<open>IsValid\<close> check), so the line for \<open>Zero\<close> is never reached.
\<close>

fun Type_of :: "Value \<Rightarrow> Type" where
  "Type_of (StructV nm fs) = \<lparr>t_Name = nm, t_Kind = KStruct, t_Fields = map fst fs\<rparr>"
| "Type_of Zero = \<lparr>t_Name = [], t_Kind = KInvalid, t_Fields = []\<rparr>"
| "Type_of (Scalar k nm _) = \<lparr>t_Name = nm, t_Kind = k, t_Fields = []\<rparr>"
| "Type_of (IfaceV nm _) = \<lparr>t_Name = nm, t_Kind = KInterface, t_Fields = []\<rparr>"
| "Type_of (ArrayV nm _) = \<lparr>t_Name = nm, t_Kind = KArray, t_Fields = []\<rparr>"
| "Type_of (SliceV nm _) = \<lparr>t_Name = nm, t_Kind = KSlice, t_Fields = []\<rparr>"
| "Type_of (MapV nm _) = \<lparr>t_Name = nm, t_Kind = KMap, t_Fields = []\<rparr>"
| "Type_of (PtrV nm _) = \<lparr>t_Name = nm, t_Kind = KPtr, t_Fields = []\<rparr>"

text \<open>
  The operations of \<^verbatim>\<open>reflect\<close> panic on a value of the wrong kind and on an index out of
  range: \<open>None\<close> is that panic.
\<close>

fun IsNil :: "Value \<Rightarrow> bool option" where
  "IsNil (SliceV _ xs) = Some (xs = None)"
| "IsNil (MapV _ es) = Some (es = None)"
| "IsNil (PtrV _ p) = Some (p = None)"
| "IsNil (IfaceV _ x) = Some (x = None)"
| "IsNil (Scalar k _ _) = (if k \<in> {KChan, KFunc, KUnsafePointer} then Some False else None)"
| "IsNil _ = None"

fun Len :: "Value \<Rightarrow> int option" where
  "Len (ArrayV _ xs) = Some (int (length xs))"
| "Len (SliceV _ xs) = Some (case xs of None \<Rightarrow> 0 | Some ys \<Rightarrow> int (length ys))"
| "Len (MapV _ es) = Some (case es of None \<Rightarrow> 0 | Some ps \<Rightarrow> int (length ps))"
| "Len _ = None"

definition nth_opt :: "'a list \<Rightarrow> int \<Rightarrow> 'a option" where
  "nth_opt xs i = (if 0 \<le> i \<and> i < int (length xs) then Some (xs ! nat i) else None)"

fun Value_Index :: "Value \<Rightarrow> int \<Rightarrow> Value option" where
  "Value_Index (ArrayV _ xs) i = nth_opt xs i"
| "Value_Index (SliceV _ (Some xs)) i = nth_opt xs i"
| "Value_Index _ i = None"

fun MapKeys :: "Value \<Rightarrow> Value list option" where
  "MapKeys (MapV _ None) = Some []"
| "MapKeys (MapV _ (Some es)) = Some (map fst es)"
| "MapKeys _ = None"

text \<open>
  A map finds a key by Go's \<^verbatim>\<open>==\<close>, under which a NaN is not equal to itself.
  \<open>self_equal v\<close> says that \<^verbatim>\<open>v == v\<close> holds: \<open>v\<close> is no floating-point or complex number
  that is or has a NaN, and no interface, array or struct that holds such a number
  (pointers and channels are compared by their identity; slices, maps and functions are
  never keys).
\<close>

fun has_NaN :: "string \<Rightarrow> bool" where
  "has_NaN [] = False"
| "has_NaN (c # cs) = (take 3 (c # cs) = ''NaN'' \<or> has_NaN cs)"

fun self_equal :: "Value \<Rightarrow> bool" where
  "self_equal (Scalar k nm c) = (\<not> (k \<in> {KFloat32, KFloat64, KComplex64, KComplex128} \<and> has_NaN c))"
| "self_equal (IfaceV nm (Some v)) = self_equal v"
| "self_equal (ArrayV nm xs) = list_all self_equal xs"
| "self_equal (StructV nm fs) = list_all self_equal (map snd fs)"
| "self_equal _ = True"

text \<open>
  \<^verbatim>\<open>MapIndex\<close> gives the zero Value for a key that the map does not hold, and so for every
  key that is not equal to itself, also when \<^verbatim>\<open>MapKeys\<close> lists it.
\<close>

fun MapIndex :: "Value \<Rightarrow> Value \<Rightarrow> Value option" where
  "MapIndex (MapV _ None) key = Some Zero"
| "MapIndex (MapV _ (Some es)) key =
     Some (if self_equal key then (case map_of es key of None \<Rightarrow> Zero | Some v \<Rightarrow> v) else Zero)"
| "MapIndex _ key = None"

fun Field :: "Value \<Rightarrow> int \<Rightarrow> Value option" where
  "Field (StructV _ fs) i = nth_opt (map snd fs) i"
| "Field _ i = None"

text \<open>\<^verbatim>\<open>Elem\<close> of a nil pointer and of a nil interface is the zero Value.\<close>

fun Elem :: "Value \<Rightarrow> Value option" where
  "Elem (PtrV _ None) = Some Zero"
| "Elem (PtrV _ (Some v)) = Some v"
| "Elem (IfaceV _ None) = Some Zero"
| "Elem (IfaceV _ (Some v)) = Some v"
| "Elem _ = None"

text \<open>\<^verbatim>\<open>typ.NumField()\<close> and \<^verbatim>\<open>typ.Field(i)\<close> panic on a type that is no struct.\<close>

definition NumField :: "Type \<Rightarrow> int option" where
  "NumField typ = (if t_Kind typ = KStruct then Some (int (length (t_Fields typ))) else None)"


section \<open>The engine's own data\<close>

text \<open>The categories of a binding; \<open>Unknown\<close> is the zero value of the enumeration.\<close>

datatype ItemType =
    Unknown | ForImpl | ForAssign | ForKind | ForContainer
  | ForNilPtr | ForIntX | ForUintX | ForAllKinds

record Property =
  Index :: int
  Name :: string
  IndexForReal :: int

text \<open>
  An \<^verbatim>\<open>orderItem\<close> (fields \<^verbatim>\<open>i, n, o, t, c, k\<close> in the source): one entry of the ordered
  list of type and kind bindings. \<open>item_t = None\<close> is the nil type.
\<close>

record orderItem =
  item_i :: int
  item_n :: string
  item_o :: int
  item_t :: "Type option"
  item_c :: bool
  item_k :: Kind

text \<open>A bound method of the adapter, \<^verbatim>\<open>aptVal.Method(i)\<close>, is known by its index.\<close>

type_synonym Method = int

text \<open>
  \<^verbatim>\<open>parentInfo\<close>, the frame of an opened container (fields \<^verbatim>\<open>depth, value, size, offset,
  structFields, binding\<close>).
\<close>

record parentInfo =
  depth :: int
  pvalue :: Value
  psize :: int
  offset :: int
  structFields :: "Property list"
  binding :: Method

text \<open>
  Errors are kept structurally: one constructor for each place where the source makes an
  error, holding what the message is formatted from. \<open>AdapterError\<close> is an error made by
  the adapter's own code. \<open>ContainerEndFailed e\<close> is
  \<^verbatim>\<open>fmt.Errorf("call container end failed: %v", err)\<close>, a new error whose text embeds
  the text of \<open>e\<close>.
\<close>

datatype error =
    ErrInvalidAdapter
  | DuplicatedType string string
  | DuplicatedKind string Kind
  | DuplicatedShortcut string
  | NoBindingFound
  | InvalidValue
  | InvalidValueInTraverse "parentInfo option" Value
  | BindingMissing Type Kind
  | ContainerEndFailed error
  | AdapterError string

text \<open>The panics of the engine, and \<open>ReflectPanic\<close> for those raised inside \<^verbatim>\<open>reflect\<close>.\<close>

datatype panic =
    FunctionNotFoundByType orderItem Type
  | FunctionNotFoundByKind orderItem Kind
  | ShouldNotBeHere orderItem Kind
  | ReenterNeedValid Value
  | NeedNextParentInfo "parentInfo option" Value
  | KeysMismatch parentInfo int
  | UnknownStatus
  | ReflectPanic

datatype 'a result = Panicked panic | Returned 'a

text \<open>
  The argument lists handed to a callback. The three builders are methods of
  \<^verbatim>\<open>parentInfo\<close> whose bodies are not part of the sources at hand; an argument list is
  kept as the builder's name with the frames and the value it is built from. The context
  \<^verbatim>\<open>ctx\<close> is a store that only the adapter reads and writes: it is part of the adapter's
  state \<open>'w\<close> below.
\<close>

datatype Ins =
    callIns "parentInfo option" Value
  | startContainerIns "parentInfo option" parentInfo Value
  | endContainerIns "parentInfo option" parentInfo Value

text \<open>What a callback returns: the descend flag (false where the callback has none) and the error.\<close>

datatype Outs = Outs bool "error option"

text \<open>
  Modelled from the spec: \<^verbatim>\<open>ItemType.parseReturns\<close> is not part of the sources at hand.
  The spec: a callback's return "communicates descend (boolean) plus error".
\<close>

fun parseReturns :: "ItemType \<Rightarrow> Outs \<Rightarrow> bool \<times> error option" where
  "parseReturns itype (Outs goin err) = (goin, err)"

text \<open>
  Modelled from the spec: the table \<^verbatim>\<open>_containers\<close> is not part of the sources at hand.
  The spec lists the container kinds: fixed array, variable sequence, map, record,
  pointer.
\<close>

definition containers :: "Kind set" where
  "containers = {KArray, KSlice, KMap, KStruct, KPtr}"

text \<open>
  Modelled from the spec: \<^verbatim>\<open>parentInfo.nextDepth\<close> is not part of the sources at hand.
  The spec: the root is at depth 0 and a frame supplies depth + 1.
\<close>

fun nextDepth :: "parentInfo option \<Rightarrow> int" where
  "nextDepth None = 0"
| "nextDepth (Some p) = depth p + 1"

text \<open>
  \<^verbatim>\<open>TraverseConf\<close>. The \<^verbatim>\<open>Propertier\<close> is an interface value of the caller (\<open>None\<close> is nil);
  it runs the caller's code, which may read and change the caller's state \<open>'w\<close>.
\<close>

record 'w TraverseConf =
  Propertier :: "(Value \<Rightarrow> 'w \<Rightarrow> (int \<times> Property list) \<times> 'w) option"
  PtrAutoGoIn :: bool
  ContainerEnd :: bool
  IgnoreMissedBinding :: bool

text \<open>
  The engine holds its configuration through a pointer, so configurations live in a
  store: \<open>cells\<close> maps an address to the configuration stored there, and the addresses
  below \<open>top\<close> are the allocated ones.
\<close>

record 'w store =
  cells :: "nat \<Rightarrow> 'w TraverseConf"
  top :: nat

record MethodInfo =
  m_Name :: string
  m_In :: "Type list"

record Traveller =
  adapter :: "MethodInfo list"
  conf :: "nat option"
  prefixes :: "ItemType list"
  suffixes :: "ItemType list"
  shortcuts :: "(ItemType \<times> Method) list"
  typeMethods :: "Type \<rightharpoonup> Method"
  kindMethods :: "Kind \<rightharpoonup> Method"
  typeOrder :: "orderItem list"
  structTypeCache :: "Type \<rightharpoonup> (int \<times> Property list)"

text \<open>
  What the sources at hand use and do not define is a parameter of the model: the
  methods of \<^verbatim>\<open>ItemType\<close> and of \<^verbatim>\<open>orderItem\<close>, the two sort orders, and the adapter's
  code itself (\<open>Call m ins w\<close> runs the bound method \<open>m\<close> on the arguments \<open>ins\<close> in the
  adapter's state \<open>w\<close>).
\<close>

record 'w externs =
  Which :: "string \<Rightarrow> ItemType \<times> Kind \<times> bool"
  IsValidWithReceiver :: "ItemType \<Rightarrow> MethodInfo \<Rightarrow> bool"
  ParamLength :: "ItemType \<Rightarrow> int"
  Prefix :: "ItemType \<Rightarrow> bool"
  Suffix :: "ItemType \<Rightarrow> bool"
  sortItems :: "orderItem list \<Rightarrow> orderItem list"
  sortItemTypes :: "ItemType list \<Rightarrow> ItemType list"
  MatchValue :: "ItemType \<Rightarrow> Value \<Rightarrow> bool"
  match :: "orderItem \<Rightarrow> Value \<Rightarrow> ItemType \<times> Type option \<times> Kind \<times> bool"
  Call :: "Method \<Rightarrow> Ins \<Rightarrow> 'w \<Rightarrow> Outs \<times> 'w"


section \<open>Dispatch: \<^verbatim>\<open>_structProperties\<close> and \<^verbatim>\<open>_call\<close>\<close>

text \<open>
  Reading the configuration through the engine's pointer: \<^verbatim>\<open>t.conf != nil && t.conf.F\<close>.
\<close>

definition conf_flag :: "('w TraverseConf \<Rightarrow> bool) \<Rightarrow> 'w store \<Rightarrow> Traveller \<Rightarrow> bool" where
  "conf_flag F h t = (case conf t of None \<Rightarrow> False | Some a \<Rightarrow> F (cells h a))"

text \<open>
  The loop of \<^verbatim>\<open>_structProperties\<close> over the fields of the struct type, from field \<open>i\<close> on:
  a field with an empty \<^verbatim>\<open>PkgPath\<close> (an exported one) gives a Property.
\<close>

fun default_properties :: "StructField list \<Rightarrow> int \<Rightarrow> Property list" where
  "default_properties [] i = []"
| "default_properties (f # fs) i =
     (if sf_PkgPath f = []
      then \<lparr>Index = i, Name = sf_Name f, IndexForReal = - 1\<rparr> # default_properties fs (i + 1)
      else default_properties fs (i + 1))"

definition Traveller_structProperties ::
  "'w store \<Rightarrow> Traveller \<Rightarrow> Value \<Rightarrow> 'w \<Rightarrow> (int \<times> Property list) result \<times> 'w" where
  "Traveller_structProperties h t val w =
     (if \<not> IsValid val then (Returned (0, []), w)
      else case (case conf t of None \<Rightarrow> None | Some a \<Rightarrow> Propertier (cells h a)) of
        Some propertier \<Rightarrow> (case propertier val w of (r, w') \<Rightarrow> (Returned r, w'))
      | None \<Rightarrow>
          (case NumField (Type_of val) of
             None \<Rightarrow> (Panicked ReflectPanic, w)
           | Some n \<Rightarrow>
               (let ps = default_properties (t_Fields (Type_of val)) 0
                in (Returned (int (length ps), ps), w))))"

text \<open>What \<^verbatim>\<open>_call\<close> returns: \<^verbatim>\<open>(goin, reEnter, info, newVal, err)\<close>.\<close>

type_synonym call_result = "bool \<times> bool \<times> parentInfo option \<times> Value \<times> error option"

text \<open>
  The body of both shortcut loops once a shortcut matches: the method is looked up in
  \<^verbatim>\<open>t.shortcuts\<close> (a missing entry is the zero \<^verbatim>\<open>reflect.Value\<close>, and calling it panics),
  called, and only the error of its return is kept.
\<close>

definition call_shortcut ::
  "'w externs \<Rightarrow> Traveller \<Rightarrow> parentInfo option \<Rightarrow> Value \<Rightarrow> ItemType \<Rightarrow> 'w
     \<Rightarrow> call_result result \<times> 'w" where
  "call_shortcut X t parent val itype w =
     (case map_of (shortcuts t) itype of
        None \<Rightarrow> (Panicked ReflectPanic, w)
      | Some method \<Rightarrow>
          (case Call X method (callIns parent val) w of
             (outs, w') \<Rightarrow>
               (Returned (False, False, None, Zero, snd (parseReturns itype outs)), w')))"

text \<open>The \<^verbatim>\<open>switch kind\<close> that computes the size and the fields of a container.\<close>

definition container_size ::
  "'w store \<Rightarrow> Traveller \<Rightarrow> Kind \<Rightarrow> Value \<Rightarrow> 'w \<Rightarrow> (int \<times> Property list) result \<times> 'w" where
  "container_size h t kind val w =
     (if kind = KArray then
        (case Len val of None \<Rightarrow> (Panicked ReflectPanic, w) | Some n \<Rightarrow> (Returned (n, []), w))
      else if kind = KSlice then
        (case IsNil val of
           None \<Rightarrow> (Panicked ReflectPanic, w)
         | Some True \<Rightarrow> (Returned (0, []), w)
         | Some False \<Rightarrow>
             (case Len val of None \<Rightarrow> (Panicked ReflectPanic, w) | Some n \<Rightarrow> (Returned (n, []), w)))
      else if kind = KMap then
        (case IsNil val of
           None \<Rightarrow> (Panicked ReflectPanic, w)
         | Some True \<Rightarrow> (Returned (0, []), w)
         | Some False \<Rightarrow>
             (case Len val of None \<Rightarrow> (Panicked ReflectPanic, w) | Some n \<Rightarrow> (Returned (2 * n, []), w)))
      else if kind = KStruct then Traveller_structProperties h t val w
      else if kind = KPtr then
        (case IsNil val of
           None \<Rightarrow> (Panicked ReflectPanic, w)
         | Some True \<Rightarrow> (Returned (0, []), w)
         | Some False \<Rightarrow> (Returned (1, []), w))
      else (Returned (0, []), w))"

text \<open>Lines 211 to 215: the return of a matched type or kind binding is parsed.\<close>

definition call_return :: "ItemType \<Rightarrow> parentInfo option \<Rightarrow> Outs \<times> 'w \<Rightarrow> call_result result \<times> 'w" where
  "call_return itype info ow =
     (case ow of (outs, w') \<Rightarrow>
        (case parseReturns itype outs of
           (goin, Some e) \<Rightarrow> (Returned (False, False, None, Zero, Some e), w')
         | (goin, None) \<Rightarrow> (Returned (goin, False, info, Zero, None), w')))"

text \<open>The body of the loop over \<^verbatim>\<open>t.typeOrder\<close> for the first item that matches.\<close>

definition call_item ::
  "'w externs \<Rightarrow> 'w store \<Rightarrow> Traveller \<Rightarrow> parentInfo option \<Rightarrow> Value \<Rightarrow> orderItem \<Rightarrow> 'w
     \<Rightarrow> call_result result \<times> 'w" where
  "call_item X h t parent val item w =
     (case match X item val of (itype, typ, kind, _) \<Rightarrow>
        (case typ of
           Some ty \<Rightarrow>
             (case typeMethods t ty of
                None \<Rightarrow> (Panicked (FunctionNotFoundByType item ty), w)
              | Some fVal \<Rightarrow> call_return itype None (Call X fVal (callIns parent val) w))
         | None \<Rightarrow>
             if kind \<noteq> KInvalid then
               (case kindMethods t kind of
                  None \<Rightarrow> (Panicked (FunctionNotFoundByKind item kind), w)
                | Some fVal \<Rightarrow>
                    if kind \<in> containers then
                      (case container_size h t kind val w of
                         (Panicked p, w1) \<Rightarrow> (Panicked p, w1)
                       | (Returned (sz, flds), w1) \<Rightarrow>
                           (let info = \<lparr>depth = nextDepth parent, pvalue = val, psize = sz,
                                        offset = - 1, structFields = flds, binding = fVal\<rparr>
                            in call_return itype (Some info)
                                 (Call X fVal (startContainerIns parent info val) w1)))
                    else call_return itype None (Call X fVal (callIns parent val) w))
             else (Panicked (ShouldNotBeHere item kind), w)))"

text \<open>
  \<^verbatim>\<open>_call\<close>. Each of the three loops returns from its first matching element, so a loop
  is the search for that element.
\<close>

definition Traveller_call ::
  "'w externs \<Rightarrow> 'w store \<Rightarrow> Traveller \<Rightarrow> parentInfo option \<Rightarrow> Value \<Rightarrow> 'w
     \<Rightarrow> call_result result \<times> 'w" where
  "Traveller_call X h t parent val w =
     (if \<not> IsValid val then (Returned (False, False, None, Zero, Some InvalidValue), w)
      else case find (\<lambda>itype. MatchValue X itype val) (prefixes t) of
        Some itype \<Rightarrow> call_shortcut X t parent val itype w
      | None \<Rightarrow>
      (case find (\<lambda>item. snd (snd (snd (match X item val)))) (typeOrder t) of
        Some item \<Rightarrow> call_item X h t parent val item w
      | None \<Rightarrow>
      if conf_flag PtrAutoGoIn h t \<and> t_Kind (Type_of val) = KPtr then
        (case IsNil val of
           None \<Rightarrow> (Panicked ReflectPanic, w)
         | Some False \<Rightarrow>
             (case Elem val of
                None \<Rightarrow> (Panicked ReflectPanic, w)
              | Some newVal \<Rightarrow> (Returned (False, True, parent, newVal, None), w))
         | Some True \<Rightarrow> (Returned (False, False, parent, Zero, None), w))
      else case find (\<lambda>itype. MatchValue X itype val) (suffixes t) of
        Some itype \<Rightarrow> call_shortcut X t parent val itype w
      | None \<Rightarrow>
      if \<not> conf_flag IgnoreMissedBinding h t
      then (Returned (False, False, None, Zero,
              Some (BindingMissing (Type_of val) (t_Kind (Type_of val)))), w)
      else (Returned (False, False, None, Zero, None), w)))"


section \<open>The walk: \<^verbatim>\<open>_traverse\<close>\<close>

text \<open>
  Lines 347 to 353: the container-end notification. The error of the callback is not
  handed on as it is: a new error is made from it.
\<close>

definition container_end ::
  "'w externs \<Rightarrow> 'w store \<Rightarrow> Traveller \<Rightarrow> parentInfo option \<Rightarrow> parentInfo \<Rightarrow> Value \<Rightarrow> 'w
     \<Rightarrow> error option result \<times> 'w" where
  "container_end X h t parent nxt oldVal w =
     (if conf_flag ContainerEnd h t then
        (case Call X (binding nxt) (endContainerIns parent nxt oldVal) w of
           (outs, w') \<Rightarrow>
             (case snd (parseReturns ForContainer outs) of
                Some e \<Rightarrow> (Returned (Some (ContainerEndFailed e)), w')
              | None \<Rightarrow> (Returned None, w')))
      else (Returned None, w))"

subsection \<open>The walked value gets smaller\<close>

text \<open>
  Every value that the walk recurses into is a part of the value at hand. These facts give
  the termination of the walk.
\<close>

lemma nth_size_list: "i < length xs \<Longrightarrow> f (xs ! i) < size_list f xs"
proof (induction xs arbitrary: i)
  case Nil
  then show ?case by simp
next
  case (Cons x xs)
  show ?case
  proof (cases i)
    case 0
    then show ?thesis by simp
  next
    case (Suc j)
    with Cons.prems have "j < length xs" by simp
    from Cons.IH [OF this] Suc show ?thesis by simp
  qed
qed

lemma nth_opt_size: "nth_opt xs i = Some c \<Longrightarrow> f c < size_list f xs"
  by (auto simp: nth_opt_def nth_size_list split: if_splits)

lemma Value_Index_size: "Value_Index v i = Some c \<Longrightarrow> size c < size v"
  by (induction v i rule: Value_Index.induct) (auto dest: nth_opt_size [where f = size])

lemma size_list_map_snd:
  "size_list size (map snd fs) \<le> size_list (size_prod (\<lambda>x. 0) size) fs"
  by (induction fs) auto

lemma Field_size: "Field v i = Some c \<Longrightarrow> size c < size v"
proof (cases v)
  case (StructV nm fs)
  assume "Field v i = Some c"
  with StructV have "size c < size_list size (map snd fs)"
    by (auto dest: nth_opt_size [where f = size])
  with size_list_map_snd [of fs] StructV show ?thesis by simp
qed auto

lemma Elem_size: "Elem v = Some c \<Longrightarrow> size c < size v"
  by (induction v rule: Elem.induct) auto

lemma map_of_size:
  "map_of es k = Some c \<Longrightarrow> size c < size_list (size_prod size size) es"
  by (induction es) (auto split: if_splits)

lemma MapIndex_size: "MapIndex v k = Some c \<Longrightarrow> size c < size v"
  by (induction v k rule: MapIndex.induct) (auto split: option.splits dest: map_of_size)

lemma size_list_map_fst:
  "size_list size (map fst es) \<le> size_list (size_prod size size) es"
  by (induction es) auto

lemma MapKeys_size: "MapKeys v = Some keys \<Longrightarrow> size_list size keys \<le> size v"
  by (induction v rule: MapKeys.induct) (auto intro: le_SucI size_list_map_fst)

lemma call_shortcut_no_reEnter:
  "call_shortcut X t parent val itype w = (Returned (goin, reEnter, nxt, newVal, err), w1) \<Longrightarrow> \<not> reEnter"
  by (auto simp: call_shortcut_def split: option.splits prod.splits)

lemma call_return_no_reEnter:
  "call_return itype info ow = (Returned (goin, reEnter, nxt, newVal, err), w1) \<Longrightarrow> \<not> reEnter"
  by (auto simp: call_return_def split: option.splits prod.splits)

lemma call_item_no_reEnter:
  "call_item X h t parent val item w = (Returned (goin, reEnter, nxt, newVal, err), w1) \<Longrightarrow> \<not> reEnter"
  by (auto simp: call_item_def Let_def split: option.splits prod.splits if_splits result.splits
           dest: call_return_no_reEnter)

lemma Traveller_call_reEnter:
  "Traveller_call X h t parent val w = (Returned (goin, True, nxt, newVal, err), w1)
     \<Longrightarrow> Elem val = Some newVal"
  by (auto simp: Traveller_call_def split: option.splits if_splits bool.splits
           dest: call_shortcut_no_reEnter call_item_no_reEnter)

lemma rank_key: "i < length keys \<Longrightarrow> 4 * size (keys ! i) + 3 < 4 * max s (size_list size keys)"
  using nth_size_list [of i keys size] by simp

lemma rank_keys: "MapKeys v = Some keys \<Longrightarrow> max (size v) (size_list size keys) = size v"
  by (drule MapKeys_size) simp

type_synonym 'w traverse_args =
  "('w externs \<times> 'w store \<times> Traveller \<times> parentInfo option \<times> Value \<times> 'w +
    'w externs \<times> 'w store \<times> Traveller \<times> parentInfo option \<times> Value \<times> 'w +
    'w externs \<times> 'w store \<times> Traveller \<times> parentInfo \<times> Value \<times> 'w) +
   'w externs \<times> 'w store \<times> Traveller \<times> parentInfo \<times> Value \<times> nat \<times> 'w +
   'w externs \<times> 'w store \<times> Traveller \<times> parentInfo \<times> Value \<times> Value list \<times> nat \<times> 'w +
   'w externs \<times> 'w store \<times> Traveller \<times> parentInfo \<times> Value \<times> nat \<times> 'w"

definition traverse_rank :: "'w traverse_args \<Rightarrow> nat" where
  "traverse_rank x =
     (case x of
        Inl (Inl (X, h, t, parent, v, w)) \<Rightarrow> 4 * size v + 3
      | Inl (Inr (Inl (X, h, t, parent, v, w))) \<Rightarrow> 4 * size v + 2
      | Inl (Inr (Inr (X, h, t, nxt, v, w))) \<Rightarrow> 4 * size v + 1
      | Inr (Inl (X, h, t, nxt, v, i, w)) \<Rightarrow> 4 * size v
      | Inr (Inr (Inl (X, h, t, nxt, v, keys, i, w))) \<Rightarrow> 4 * max (size v) (size_list size keys)
      | Inr (Inr (Inr (X, h, t, nxt, v, i, w))) \<Rightarrow> 4 * size v)"

definition traverse_left :: "'w traverse_args \<Rightarrow> nat" where
  "traverse_left x =
     (case x of
        Inr (Inl (X, h, t, nxt, v, i, w)) \<Rightarrow> nat (psize nxt) - i
      | Inr (Inr (Inl (X, h, t, nxt, v, keys, i, w))) \<Rightarrow> length keys - i
      | Inr (Inr (Inr (X, h, t, nxt, v, i, w))) \<Rightarrow> length (structFields nxt) - i
      | _ \<Rightarrow> (0::nat))"

subsection \<open>The recursion\<close>

text \<open>
  \<open>Traveller_traverse\<close> is \<^verbatim>\<open>_traverse\<close> up to its \<^verbatim>\<open>for\<close> loop, \<open>traverse_loop\<close> is that loop
  (one round for each re-entry) with all that follows it, \<open>walk_children\<close> is the
  \<^verbatim>\<open>switch oldVal.Kind()\<close>, and \<open>walk_index\<close>, \<open>walk_map\<close>, \<open>walk_fields\<close> are its three
  loops from the counter \<open>i\<close> on. A loop assigns \<^verbatim>\<open>next.offset\<close> before each child, so it
  hands back the frame as it stands when the loop ends. Any error or panic of a child ends
  the walk at once.
\<close>

function
  Traveller_traverse ::
    "'w externs \<Rightarrow> 'w store \<Rightarrow> Traveller \<Rightarrow> parentInfo option \<Rightarrow> Value \<Rightarrow> 'w
       \<Rightarrow> error option result \<times> 'w"
and traverse_loop ::
    "'w externs \<Rightarrow> 'w store \<Rightarrow> Traveller \<Rightarrow> parentInfo option \<Rightarrow> Value \<Rightarrow> 'w
       \<Rightarrow> error option result \<times> 'w"
and walk_children ::
    "'w externs \<Rightarrow> 'w store \<Rightarrow> Traveller \<Rightarrow> parentInfo \<Rightarrow> Value \<Rightarrow> 'w
       \<Rightarrow> error option result \<times> parentInfo \<times> 'w"
and walk_index ::
    "'w externs \<Rightarrow> 'w store \<Rightarrow> Traveller \<Rightarrow> parentInfo \<Rightarrow> Value \<Rightarrow> nat \<Rightarrow> 'w
       \<Rightarrow> error option result \<times> parentInfo \<times> 'w"
and walk_map ::
    "'w externs \<Rightarrow> 'w store \<Rightarrow> Traveller \<Rightarrow> parentInfo \<Rightarrow> Value \<Rightarrow> Value list \<Rightarrow> nat \<Rightarrow> 'w
       \<Rightarrow> error option result \<times> parentInfo \<times> 'w"
and walk_fields ::
    "'w externs \<Rightarrow> 'w store \<Rightarrow> Traveller \<Rightarrow> parentInfo \<Rightarrow> Value \<Rightarrow> nat \<Rightarrow> 'w
       \<Rightarrow> error option result \<times> parentInfo \<times> 'w"
where
  "Traveller_traverse X h t parent val w =
     (if \<not> IsValid val then (Returned (Some (InvalidValueInTraverse parent val)), w)
      else traverse_loop X h t parent val w)"
| "traverse_loop X h t parent oldVal w =
     (case Traveller_call X h t parent oldVal w of
        (Panicked p, w1) \<Rightarrow> (Panicked p, w1)
      | (Returned (goin, reEnter, nxt, newVal, err), w1) \<Rightarrow>
          (case err of
             Some e \<Rightarrow> (Returned (Some e), w1)
           | None \<Rightarrow>
               if reEnter then
                 (if \<not> IsValid newVal then (Panicked (ReenterNeedValid oldVal), w1)
                  else traverse_loop X h t parent newVal w1)
               else if \<not> goin then (Returned None, w1)
               else
                 (case nxt of
                    None \<Rightarrow> (Panicked (NeedNextParentInfo parent oldVal), w1)
                  | Some next \<Rightarrow>
                      (case walk_children X h t next oldVal w1 of
                         (Returned None, next', w2) \<Rightarrow> container_end X h t parent next' oldVal w2
                       | (Returned (Some e), next', w2) \<Rightarrow> (Returned (Some e), w2)
                       | (Panicked p, next', w2) \<Rightarrow> (Panicked p, w2)))))"
| "walk_children X h t next oldVal w =
     (if Kind_of oldVal = KArray \<or> Kind_of oldVal = KSlice then walk_index X h t next oldVal 0 w
      else if Kind_of oldVal = KMap then
        (if psize next > 0 then
           (case MapKeys oldVal of
              None \<Rightarrow> (Panicked ReflectPanic, next, w)
            | Some keys \<Rightarrow>
                if 2 * int (length keys) \<noteq> psize next
                then (Panicked (KeysMismatch next (int (length keys))), next, w)
                else walk_map X h t next oldVal keys 0 w)
         else (Returned None, next, w))
      else if Kind_of oldVal = KStruct then walk_fields X h t next oldVal 0 w
      else if Kind_of oldVal = KPtr then
        (if psize next > 0 then
           (case Elem oldVal of
              None \<Rightarrow> (Panicked ReflectPanic, next, w)
            | Some elem \<Rightarrow>
                (case Traveller_traverse X h t (Some (next\<lparr>offset := 0\<rparr>)) elem w of
                   (r, w') \<Rightarrow> (r, next\<lparr>offset := 0\<rparr>, w')))
         else (Returned None, next, w))
      else (Panicked UnknownStatus, next, w))"
| "walk_index X h t next oldVal i w =
     (if int i < psize next then
        (case Value_Index oldVal (int i) of
           None \<Rightarrow> (Panicked ReflectPanic, next, w)
         | Some child \<Rightarrow>
             (case Traveller_traverse X h t (Some (next\<lparr>offset := int i\<rparr>)) child w of
                (Returned None, w') \<Rightarrow> walk_index X h t (next\<lparr>offset := int i\<rparr>) oldVal (i + 1) w'
              | (r, w') \<Rightarrow> (r, next\<lparr>offset := int i\<rparr>, w')))
      else (Returned None, next, w))"
| "walk_map X h t next oldVal keys i w =
     (if i < length keys then
        (case Traveller_traverse X h t (Some (next\<lparr>offset := 2 * int i\<rparr>)) (keys ! i) w of
           (Returned None, w') \<Rightarrow>
             (case MapIndex oldVal (keys ! i) of
                None \<Rightarrow> (Panicked ReflectPanic, next\<lparr>offset := 2 * int i\<rparr>, w')
              | Some v \<Rightarrow>
                  (case Traveller_traverse X h t (Some (next\<lparr>offset := 2 * int i + 1\<rparr>)) v w' of
                     (Returned None, w'') \<Rightarrow>
                       walk_map X h t (next\<lparr>offset := 2 * int i + 1\<rparr>) oldVal keys (i + 1) w''
                   | (r, w'') \<Rightarrow> (r, next\<lparr>offset := 2 * int i + 1\<rparr>, w'')))
         | (r, w') \<Rightarrow> (r, next\<lparr>offset := 2 * int i\<rparr>, w'))
      else (Returned None, next, w))"
| "walk_fields X h t next oldVal i w =
     (if i < length (structFields next) then
        (if Index (structFields next ! i) < 0 then walk_fields X h t next oldVal (i + 1) w
         else
           (case Field oldVal (Index (structFields next ! i)) of
              None \<Rightarrow> (Panicked ReflectPanic, next, w)
            | Some fieldVal \<Rightarrow>
                (case Traveller_traverse X h t (Some (next\<lparr>offset := int i\<rparr>)) fieldVal w of
                   (Returned None, w') \<Rightarrow> walk_fields X h t (next\<lparr>offset := int i\<rparr>) oldVal (i + 1) w'
                 | (r, w') \<Rightarrow> (r, next\<lparr>offset := int i\<rparr>, w'))))
      else (Returned None, next, w))"
  by pat_completeness auto

termination
  apply (relation "measures [traverse_rank, traverse_left]")
                apply (simp_all add: traverse_rank_def traverse_left_def rank_key rank_keys)
        apply (auto dest!: Traveller_call_reEnter [OF sym] Elem_size Value_Index_size Field_size MapIndex_size)
  done

declare Traveller_traverse.simps [simp del] traverse_loop.simps [simp del]
  walk_children.simps [simp del] walk_index.simps [simp del] walk_map.simps [simp del]
  walk_fields.simps [simp del]

text \<open>\<^verbatim>\<open>Traverse\<close>: \<open>obj\<close> is an \<^verbatim>\<open>interface{}\<close>, \<open>None\<close> the nil interface.\<close>

fun ValueOf :: "Value option \<Rightarrow> Value" where
  "ValueOf None = Zero"
| "ValueOf (Some v) = v"

definition Traverse ::
  "'w externs \<Rightarrow> 'w store \<Rightarrow> Traveller \<Rightarrow> Value option \<Rightarrow> 'w \<Rightarrow> error option result \<times> 'w" where
  "Traverse X h t obj w =
     (let val = ValueOf obj
      in if \<not> IsValid val then (Returned None, w)
         else Traveller_traverse X h t None val w)"


section \<open>Construction: \<^verbatim>\<open>NewTraveller\<close>\<close>

text \<open>The four tables that the loop over the adapter's methods fills.\<close>

record registry =
  reg_items :: "orderItem list"
  reg_shortcuts :: "(ItemType \<times> Method) list"
  reg_typeMethods :: "Type \<rightharpoonup> Method"
  reg_kindMethods :: "Kind \<rightharpoonup> Method"

definition empty_registry :: registry where
  "empty_registry =
     \<lparr>reg_items = [], reg_shortcuts = [], reg_typeMethods = Map.empty, reg_kindMethods = Map.empty\<rparr>"

text \<open>
  The loop of lines 50 to 94 over the methods, from method \<open>i\<close> on. The result is a panic
  (\<^verbatim>\<open>fType.In\<close> out of range), an error (\<open>Inl\<close>) or the filled tables (\<open>Inr\<close>).
\<close>

fun bind_methods ::
  "'w externs \<Rightarrow> MethodInfo list \<Rightarrow> int \<Rightarrow> registry \<Rightarrow> (error + registry) result" where
  "bind_methods X [] i r = Returned (Inr r)"
| "bind_methods X (m # ms) i r =
     (case Which X (m_Name m) of (itype, inKind, ok) \<Rightarrow>
        if \<not> ok then bind_methods X ms (i + 1) r
        else if \<not> IsValidWithReceiver X itype m then bind_methods X ms (i + 1) r
        else if itype = ForImpl \<or> itype = ForAssign then
          (case nth_opt (m_In m) (ParamLength X itype) of
             None \<Rightarrow> Panicked ReflectPanic
           | Some inType \<Rightarrow>
               if reg_typeMethods r inType \<noteq> None
               then Returned (Inl (DuplicatedType (m_Name m) (t_Name inType)))
               else bind_methods X ms (i + 1)
                      (r\<lparr>reg_items := reg_items r @
                           [\<lparr>item_i = i, item_n = m_Name m, item_o = 0, item_t = Some inType,
                             item_c = False, item_k = KInvalid\<rparr>],
                         reg_typeMethods := (reg_typeMethods r)(inType \<mapsto> i)\<rparr>))
        else if itype = ForKind \<or> itype = ForContainer then
          (if reg_kindMethods r inKind \<noteq> None
           then Returned (Inl (DuplicatedKind (m_Name m) inKind))
           else bind_methods X ms (i + 1)
                  (r\<lparr>reg_items := reg_items r @
                       [\<lparr>item_i = i, item_n = m_Name m, item_o = 0, item_t = None,
                         item_c = (itype = ForContainer), item_k = inKind\<rparr>],
                     reg_kindMethods := (reg_kindMethods r)(inKind \<mapsto> i)\<rparr>))
        else if itype = ForNilPtr \<or> itype = ForIntX \<or> itype = ForUintX \<or> itype = ForAllKinds then
          (if map_of (reg_shortcuts r) itype \<noteq> None
           then Returned (Inl (DuplicatedShortcut (m_Name m)))
           else bind_methods X ms (i + 1) (r\<lparr>reg_shortcuts := reg_shortcuts r @ [(itype, i)]\<rparr>))
        else bind_methods X ms (i + 1) r)"

text \<open>
  Modelled from the spec: \<^verbatim>\<open>TraverseConf.Clone\<close> is not part of the sources at hand. The
  spec: what construction builds is "read-only for the engine's lifetime". So the clone
  is a copy of the configuration in a cell of its own, which nobody else holds.
\<close>

definition Clone :: "'w store \<Rightarrow> nat \<Rightarrow> nat \<times> 'w store" where
  "Clone h a = (top h, h\<lparr>cells := (cells h)(top h := cells h a), top := Suc (top h)\<rparr>)"

text \<open>
  \<^verbatim>\<open>NewTraveller\<close>. The adapter is an \<^verbatim>\<open>interface{}\<close>: \<open>None\<close> is nil, whose reflected value
  is invalid; otherwise it is known by its method set. \<open>config\<close> is the variadic list of
  pointers to configurations (\<open>None\<close> a nil pointer). The keys of \<^verbatim>\<open>shortcuts\<close> are ranged
  over in the order of their binding and then sorted.
\<close>

definition NewTraveller ::
  "'w externs \<Rightarrow> 'w store \<Rightarrow> MethodInfo list option \<Rightarrow> nat option list
     \<Rightarrow> (error + Traveller) result \<times> 'w store" where
  "NewTraveller X h adapter_opt config =
     (case adapter_opt of
        None \<Rightarrow> (Returned (Inl ErrInvalidAdapter), h)
      | Some methods \<Rightarrow>
          (case bind_methods X methods 0 empty_registry of
             Panicked p \<Rightarrow> (Panicked p, h)
           | Returned (Inl e) \<Rightarrow> (Returned (Inl e), h)
           | Returned (Inr r) \<Rightarrow>
               if length (reg_items r) = 0 \<and> length (reg_shortcuts r) = 0
               then (Returned (Inl NoBindingFound), h)
               else
                 (case (case config of
                          Some a # _ \<Rightarrow> (case Clone h a of (a', h') \<Rightarrow> (Some a', h'))
                        | _ \<Rightarrow> (None, h)) of
                    (cnf, h') \<Rightarrow>
                      (Returned (Inr
                         \<lparr>adapter = methods,
                          conf = cnf,
                          prefixes = sortItemTypes X (filter (Prefix X) (map fst (reg_shortcuts r))),
                          suffixes = sortItemTypes X
                            (filter (\<lambda>k. \<not> Prefix X k \<and> Suffix X k) (map fst (reg_shortcuts r))),
                          shortcuts = reg_shortcuts r,
                          typeMethods = reg_typeMethods r,
                          kindMethods = reg_kindMethods r,
                          typeOrder = sortItems X (reg_items r),
                          structTypeCache = Map.empty\<rparr>), h'))))"

section \<open>An adapter that keeps a log\<close>

text \<open>
  What a traversal does to the outside is the sequence of its callback invocations. To
  speak about that sequence, an adapter is wrapped so that it appends each invocation
  (the method, the arguments, the return) to a log that it keeps beside its own state, as
  the adapters of the repository's tests print each invocation. A \<^verbatim>\<open>Propertier\<close> runs on
  the adapter's part of the state and leaves the log alone.
\<close>

datatype event = Called Method Ins Outs

definition logged :: "'w externs \<Rightarrow> ('w \<times> event list) externs" where
  "logged X =
     \<lparr>Which = Which X, IsValidWithReceiver = IsValidWithReceiver X, ParamLength = ParamLength X,
      Prefix = Prefix X, Suffix = Suffix X, sortItems = sortItems X,
      sortItemTypes = sortItemTypes X, MatchValue = MatchValue X, match = match X,
      Call = (\<lambda>m ins (w, tr). case Call X m ins w of (outs, w') \<Rightarrow> (outs, (w', tr @ [Called m ins outs])))\<rparr>"

definition logged_conf :: "'w TraverseConf \<Rightarrow> ('w \<times> event list) TraverseConf" where
  "logged_conf c =
     \<lparr>Propertier = map_option (\<lambda>P val (w, tr). case P val w of (r, w') \<Rightarrow> (r, (w', tr))) (Propertier c),
      PtrAutoGoIn = PtrAutoGoIn c, ContainerEnd = ContainerEnd c,
      IgnoreMissedBinding = IgnoreMissedBinding c\<rparr>"

definition logged_store :: "'w store \<Rightarrow> ('w \<times> event list) store" where
  "logged_store h = \<lparr>cells = (\<lambda>a. logged_conf (cells h a)), top = top h\<rparr>"

section \<open>An instance of the parameters\<close>

text \<open>
  An instance of the parameters, following the spec where it speaks: the matching
  predicates of the four shortcuts, a type binding that matches a value of exactly its
  type and a kind binding that matches a value of its kind, the nil-pointer shortcut
  tried before the ordered bindings and the other three after them, and a classification
  of method names that knows the names used by the adapters of the repository's tests.
  The concrete inputs below are built from it.
\<close>

fun demo_MatchValue :: "ItemType \<Rightarrow> Value \<Rightarrow> bool" where
  "demo_MatchValue ForNilPtr val = (Kind_of val = KPtr \<and> IsNil val = Some True)"
| "demo_MatchValue ForIntX val = (Kind_of val \<in> {KInt, KInt8, KInt16, KInt32, KInt64})"
| "demo_MatchValue ForUintX val = (Kind_of val \<in> {KUint, KUint8, KUint16, KUint32, KUint64, KUintptr})"
| "demo_MatchValue ForAllKinds val = True"
| "demo_MatchValue _ val = False"

definition demo_match :: "orderItem \<Rightarrow> Value \<Rightarrow> ItemType \<times> Type option \<times> Kind \<times> bool" where
  "demo_match item val =
     (case item_t item of
        Some ty \<Rightarrow> (ForAssign, Some ty, KInvalid, Type_of val = ty)
      | None \<Rightarrow> (if item_c item then ForContainer else ForKind, None, item_k item,
                  Kind_of val = item_k item))"

definition demo_Which :: "string \<Rightarrow> ItemType \<times> Kind \<times> bool" where
  "demo_Which nm =
     (if nm = ''ForNilPtr'' then (ForNilPtr, KInvalid, True)
      else if nm = ''ForIntX'' then (ForIntX, KInvalid, True)
      else if nm = ''ForUintX'' then (ForUintX, KInvalid, True)
      else if nm = ''ForAllKinds'' then (ForAllKinds, KInvalid, True)
      else if nm = ''ForContainerStruct'' then (ForContainer, KStruct, True)
      else if nm = ''ForContainerPtr'' then (ForContainer, KPtr, True)
      else if nm = ''ForContainerSlice'' then (ForContainer, KSlice, True)
      else if nm = ''ForContainerArray'' then (ForContainer, KArray, True)
      else if nm = ''ForContainerMap'' then (ForContainer, KMap, True)
      else if nm = ''ForKindString'' then (ForKind, KString, True)
      else if take 9 nm = ''ForAssign'' then (ForAssign, KInvalid, True)
      else if take 7 nm = ''ForImpl'' then (ForImpl, KInvalid, True)
      else (Unknown, KInvalid, False))"

definition demo :: "(Method \<Rightarrow> Ins \<Rightarrow> 'w \<Rightarrow> Outs \<times> 'w) \<Rightarrow> 'w externs" where
  "demo f =
     \<lparr>Which = demo_Which,
      IsValidWithReceiver = (\<lambda>itype m. True),
      ParamLength = (\<lambda>itype. 5),
      Prefix = (\<lambda>itype. itype = ForNilPtr),
      Suffix = (\<lambda>itype. itype \<in> {ForIntX, ForUintX, ForAllKinds}),
      sortItems = (\<lambda>items. items),
      sortItemTypes = (\<lambda>ks. ks),
      MatchValue = demo_MatchValue,
      match = demo_match,
      Call = f\<rparr>"

definition demo_conf :: "bool \<Rightarrow> bool \<Rightarrow> bool \<Rightarrow> 'w TraverseConf" where
  "demo_conf p e i = \<lparr>Propertier = None, PtrAutoGoIn = p, ContainerEnd = e, IgnoreMissedBinding = i\<rparr>"

definition demo_store :: "'w TraverseConf \<Rightarrow> 'w store" where
  "demo_store c = \<lparr>cells = (\<lambda>a. c), top = 1\<rparr>"

definition descend_all :: "Method \<Rightarrow> Ins \<Rightarrow> unit \<Rightarrow> Outs \<times> unit" where
  "descend_all m ins w = (Outs True None, w)"

definition a_method :: "string \<Rightarrow> MethodInfo" where
  "a_method nm = \<lparr>m_Name = nm, m_In = []\<rparr>"

definition parser5 :: "MethodInfo list" where
  "parser5 = [a_method ''ForAllKinds'', a_method ''ForContainerStruct'']"

definition parser5_engine :: Traveller where
  "parser5_engine =
     \<lparr>adapter = parser5, conf = Some 1, prefixes = [], suffixes = [ForAllKinds],
      shortcuts = [(ForAllKinds, 0)], typeMethods = Map.empty, kindMethods = [KStruct \<mapsto> 1],
      typeOrder = [\<lparr>item_i = 1, item_n = ''ForContainerStruct'', item_o = 0, item_t = None,
                    item_c = True, item_k = KStruct\<rparr>],
      structTypeCache = Map.empty\<rparr>"

definition Inner0 :: Value where
  "Inner0 = StructV ''Inner0''
     [(\<lparr>sf_Name = ''A'', sf_PkgPath = []\<rparr>, Scalar KInt ''int'' ''1''),
      (\<lparr>sf_Name = ''E'', sf_PkgPath = []\<rparr>, Scalar KInt ''int'' ''2''),
      (\<lparr>sf_Name = ''B'', sf_PkgPath = []\<rparr>, Scalar KInt ''int'' ''3''),
      (\<lparr>sf_Name = ''C'', sf_PkgPath = []\<rparr>, Scalar KInt ''int'' ''4''),
      (\<lparr>sf_Name = ''D'', sf_PkgPath = []\<rparr>, Scalar KInt ''int'' ''5''),
      (\<lparr>sf_Name = ''F'', sf_PkgPath = []\<rparr>, Scalar KInt16 ''int16'' ''0''),
      (\<lparr>sf_Name = ''Z'', sf_PkgPath = []\<rparr>, PtrV ''*int'' None)]"


definition st5 :: "(unit \<times> event list) store" where
  "st5 = logged_store (demo_store (demo_conf True False False))"

section \<open>Notions used to state the properties\<close>

subsection \<open>What the exposed operations classify into\<close>

text \<open>
  The spec speaks of the (category family, target) pair that an exposed operation
  classifies into: an exact type for the two type categories, a kind for the kind and the
  container category, the shortcut itself for a shortcut. An operation that is not
  classified, or whose signature is not valid for its category, classifies into nothing.
  \<open>signature_ok\<close> says that a type-bound method accepted by \<^verbatim>\<open>IsValidWithReceiver\<close> has the
  parameter that \<^verbatim>\<open>fType.In\<close> reads.
\<close>

datatype target = TypeTarget Type | KindTarget Kind | ShortcutTarget ItemType

definition binding_target :: "'w externs \<Rightarrow> MethodInfo \<Rightarrow> target option" where
  "binding_target X m =
     (case Which X (m_Name m) of (itype, inKind, ok) \<Rightarrow>
        if ok \<and> IsValidWithReceiver X itype m then
          (if itype = ForImpl \<or> itype = ForAssign
             then map_option TypeTarget (nth_opt (m_In m) (ParamLength X itype))
           else if itype = ForKind \<or> itype = ForContainer then Some (KindTarget inKind)
           else if itype = ForNilPtr \<or> itype = ForIntX \<or> itype = ForUintX \<or> itype = ForAllKinds
             then Some (ShortcutTarget itype)
           else None)
        else None)"

definition signature_ok :: "'w externs \<Rightarrow> MethodInfo \<Rightarrow> bool" where
  "signature_ok X m =
     (case Which X (m_Name m) of (itype, inKind, ok) \<Rightarrow>
        \<not> (ok \<and> IsValidWithReceiver X itype m \<and> (itype = ForImpl \<or> itype = ForAssign)
           \<and> nth_opt (m_In m) (ParamLength X itype) = None))"

fun is_duplicate :: "error \<Rightarrow> bool" where
  "is_duplicate (DuplicatedType _ _) = True"
| "is_duplicate (DuplicatedKind _ _) = True"
| "is_duplicate (DuplicatedShortcut _) = True"
| "is_duplicate _ = False"

definition reg_targets :: "registry \<Rightarrow> target set" where
  "reg_targets r =
     TypeTarget ` dom (reg_typeMethods r) \<union> KindTarget ` dom (reg_kindMethods r)
       \<union> ShortcutTarget ` dom (map_of (reg_shortcuts r))"

subsection \<open>The log of a traversal\<close>


definition same_frame :: "parentInfo \<Rightarrow> parentInfo \<Rightarrow> bool" where
  "same_frame a b = (a\<lparr>offset := 0\<rparr> = b\<lparr>offset := 0\<rparr>)"



fun ev_err :: "event \<Rightarrow> error option" where
  "ev_err (Called m ins (Outs g e)) = e"

fun reported :: "event \<Rightarrow> error option" where
  "reported (Called m (endContainerIns p info v) (Outs g e)) = map_option ContainerEndFailed e"
| "reported (Called m ins (Outs g e)) = e"

definition faithful :: "('w \<Rightarrow> event list) \<Rightarrow> 'w externs \<Rightarrow> bool" where
  "faithful obs X =
     (\<forall>m ins w. obs (snd (Call X m ins w)) = obs w @ [Called m ins (fst (Call X m ins w))])"

definition quiet :: "('w \<Rightarrow> event list) \<Rightarrow> 'w store \<Rightarrow> bool" where
  "quiet obs h =
     (\<forall>a P val w. Propertier (cells h a) = Some P \<longrightarrow> obs (snd (P val w)) = obs w)"

text \<open>
  The shape of the log of one node under the parent frame \<open>p\<close> (\<open>node_shape\<close>) and of a run
  of children of the container with the frame \<open>info\<close> (\<open>seq_shape\<close>), with the result of
  that part of the walk; \<open>ce\<close> is the \<^verbatim>\<open>ContainerEnd\<close> flag. A child of a container is a node
  under the frame of the container at some offset.
\<close>

inductive node_shape :: "bool \<Rightarrow> parentInfo option \<Rightarrow> event list \<Rightarrow> error option result \<Rightarrow> bool"
  and seq_shape :: "bool \<Rightarrow> parentInfo \<Rightarrow> event list \<Rightarrow> error option result \<Rightarrow> bool"
  for ce :: bool
where
  silent: "node_shape ce p [] r"
| leaf: "node_shape ce p [Called m (callIns p v) (Outs g e)] (Returned e)"
| leaf_panic:
    "node_shape ce p [Called m (callIns p v) (Outs True None)] (Panicked (NeedNextParentInfo p v))"
| stopped:
    "e \<noteq> None \<or> \<not> g
       \<Longrightarrow> node_shape ce p [Called m (startContainerIns p info v) (Outs g e)] (Returned e)"
| aborted:
    "seq_shape ce info trc rc \<Longrightarrow> rc \<noteq> Returned None
       \<Longrightarrow> node_shape ce p
             (Called (binding info) (startContainerIns p info v) (Outs True None) # trc) rc"
| opened:
    "seq_shape ce info trc (Returned None) \<Longrightarrow> \<not> ce
       \<Longrightarrow> node_shape ce p
             (Called (binding info) (startContainerIns p info v) (Outs True None) # trc)
             (Returned None)"
| closed:
    "seq_shape ce info trc (Returned None) \<Longrightarrow> ce
       \<Longrightarrow> node_shape ce p
             (Called (binding info) (startContainerIns p info v) (Outs True None) # trc
                @ [Called (binding info) (endContainerIns p (info\<lparr>offset := k\<rparr>) v) (Outs g e)])
             (Returned (map_option ContainerEndFailed e))"
| seq_nil: "seq_shape ce info [] r"
| seq_cons:
    "node_shape ce (Some (info\<lparr>offset := k\<rparr>)) tr1 (Returned None) \<Longrightarrow> seq_shape ce info tr2 r
       \<Longrightarrow> seq_shape ce info (tr1 @ tr2) r"
| seq_last: "node_shape ce (Some (info\<lparr>offset := k\<rparr>)) tr r \<Longrightarrow> seq_shape ce info tr r"

text \<open>What one round of dispatch does to the log.\<close>

definition call_outcome ::
  "parentInfo option \<Rightarrow> Value \<Rightarrow> event list \<Rightarrow> call_result result \<Rightarrow> bool" where
  "call_outcome parent val tr rc =
     ((tr = [] \<and> (\<forall>goin reEnter nxt nv err. rc = Returned (goin, reEnter, nxt, nv, err) \<longrightarrow> \<not> goin))
      \<or> (\<exists>m g e. tr = [Called m (callIns parent val) (Outs g e)]
            \<and> rc = Returned (g \<and> e = None, False, None, Zero, e))
      \<or> (\<exists>m g e. tr = [Called m (callIns parent val) (Outs g e)]
            \<and> rc = Returned (False, False, None, Zero, e))
      \<or> (\<exists>info g e. tr = [Called (binding info) (startContainerIns parent info val) (Outs g e)]
            \<and> rc = Returned (g \<and> e = None, False, if e = None then Some info else None, Zero, e)))"

definition clean :: "event list \<Rightarrow> bool" where
  "clean tr = (\<forall>ev \<in> set tr. ev_err ev = None)"

definition last_fails :: "event list \<Rightarrow> error option result \<Rightarrow> bool" where
  "last_fails tr r =
     (\<exists>tr1 ev. tr = tr1 @ [ev] \<and> clean tr1 \<and> ev_err ev \<noteq> None \<and> r = Returned (reported ev))"

subsection \<open>Concrete engines\<close>

text \<open>
  The engine of the adapter \<^verbatim>\<open>parser1\<close> of the tests with its bindings \<^verbatim>\<open>ForAssign0\<close> (for
  \<^verbatim>\<open>int\<close>), \<^verbatim>\<open>ForContainerPtr\<close> and \<^verbatim>\<open>ForContainerStruct\<close>, and three adapters' codes: one
  that descends into every container and never fails, one that fails in every
  container-end notification, one that fails in the binding for \<^verbatim>\<open>int\<close>.
\<close>

definition int_type :: Type where
  "int_type = \<lparr>t_Name = ''int'', t_Kind = KInt, t_Fields = []\<rparr>"

definition parser1_engine :: Traveller where
  "parser1_engine =
     \<lparr>adapter = [], conf = Some 1, prefixes = [], suffixes = [],
      shortcuts = [], typeMethods = [int_type \<mapsto> 0], kindMethods = [KPtr \<mapsto> 1, KStruct \<mapsto> 2],
      typeOrder =
        [\<lparr>item_i = 0, item_n = ''ForAssign0'', item_o = 0, item_t = Some int_type,
           item_c = False, item_k = KInvalid\<rparr>,
         \<lparr>item_i = 1, item_n = ''ForContainerPtr'', item_o = 0, item_t = None,
           item_c = True, item_k = KPtr\<rparr>,
         \<lparr>item_i = 2, item_n = ''ForContainerStruct'', item_o = 0, item_t = None,
           item_c = True, item_k = KStruct\<rparr>],
      structTypeCache = Map.empty\<rparr>"

text \<open>
  The engine of the adapter \<^verbatim>\<open>parser0\<close> of the tests, with its bindings \<^verbatim>\<open>ForAssign0\<close> (for
  \<^verbatim>\<open>int\<close>) and \<^verbatim>\<open>ForContainerStruct\<close>, and an \<^verbatim>\<open>int\<close>.
\<close>

definition parser0_engine :: Traveller where
  "parser0_engine =
     \<lparr>adapter = [], conf = Some 1, prefixes = [], suffixes = [],
      shortcuts = [], typeMethods = [int_type \<mapsto> 0], kindMethods = [KStruct \<mapsto> 1],
      typeOrder =
        [\<lparr>item_i = 0, item_n = ''ForAssign0'', item_o = 0, item_t = Some int_type,
           item_c = False, item_k = KInvalid\<rparr>,
         \<lparr>item_i = 1, item_n = ''ForContainerStruct'', item_o = 0, item_t = None,
           item_c = True, item_k = KStruct\<rparr>],
      structTypeCache = Map.empty\<rparr>"

definition seven :: Value where
  "seven = Scalar KInt ''int'' ''7''"

definition st1 :: "(unit \<times> event list) store" where
  "st1 = logged_store (demo_store (demo_conf True True True))"

fun descend_containers :: "Method \<Rightarrow> Ins \<Rightarrow> unit \<Rightarrow> Outs \<times> unit" where
  "descend_containers m (callIns p v) w = (Outs False None, w)"
| "descend_containers m ins w = (Outs True None, w)"

fun fail_at_end :: "Method \<Rightarrow> Ins \<Rightarrow> unit \<Rightarrow> Outs \<times> unit" where
  "fail_at_end m (callIns p v) w = (Outs False None, w)"
| "fail_at_end m (startContainerIns p info v) w = (Outs True None, w)"
| "fail_at_end m (endContainerIns p info v) w = (Outs False (Some (AdapterError ''boom'')), w)"

fun fail_at_int :: "Method \<Rightarrow> Ins \<Rightarrow> unit \<Rightarrow> Outs \<times> unit" where
  "fail_at_int m (callIns p v) w = (Outs False (Some (AdapterError ''boom'')), w)"
| "fail_at_int m ins w = (Outs True None, w)"

definition a_signature :: "Type \<Rightarrow> Type list" where
  "a_signature ty =
     [\<lparr>t_Name = ''parser'', t_Kind = KStruct, t_Fields = []\<rparr>,
      \<lparr>t_Name = ''*TravContext'', t_Kind = KPtr, t_Fields = []\<rparr>,
      int_type, int_type, \<lparr>t_Name = ''string'', t_Kind = KString, t_Fields = []\<rparr>, ty]"

subsection \<open>What the engine reads of its configuration and of itself\<close>

text \<open>
  \<open>engine_conf h t\<close> is the configuration that the engine \<open>t\<close> reaches through its pointer
  in the store \<open>h\<close>. Two engines in two stores \<open>agree\<close> when they reach the same
  configuration and have the same binding tables; they may differ in the field
  \<^verbatim>\<open>structTypeCache\<close>.
\<close>

definition engine_conf :: "'w store \<Rightarrow> Traveller \<Rightarrow> 'w TraverseConf option" where
  "engine_conf h t = map_option (cells h) (conf t)"

definition agree :: "'w store \<Rightarrow> Traveller \<Rightarrow> 'w store \<Rightarrow> Traveller \<Rightarrow> bool" where
  "agree h1 t1 h2 t2 =
     (engine_conf h1 t1 = engine_conf h2 t2 \<and> prefixes t1 = prefixes t2
      \<and> suffixes t1 = suffixes t2 \<and> shortcuts t1 = shortcuts t2
      \<and> typeMethods t1 = typeMethods t2 \<and> kindMethods t1 = kindMethods t2
      \<and> typeOrder t1 = typeOrder t2)"

text \<open>
  A caller's store with one configuration (at address 0), the store after construction
  (the engine's copy at address 1), and that store after the caller has changed every
  flag of its own configuration.
\<close>

definition callers_store :: "(unit \<times> event list) store" where
  "callers_store = logged_store (demo_store (demo_conf True False False))"

definition engines_store :: "(unit \<times> event list) store" where
  "engines_store = callers_store\<lparr>cells := (cells callers_store)(1 := cells callers_store 0), top := 2\<rparr>"

definition mutated_store :: "(unit \<times> event list) store" where
  "mutated_store = engines_store\<lparr>cells := (cells engines_store)(0 := logged_conf (demo_conf False True True))\<rparr>"

text \<open>A Propertier that counts its invocations in the caller's state.\<close>

definition counting_propertier :: "Value \<Rightarrow> nat \<Rightarrow> (int \<times> Property list) \<times> nat" where
  "counting_propertier val n = ((0, []), Suc n)"

definition counting_store :: "nat store" where
  "counting_store =
     \<lparr>cells = (\<lambda>a. \<lparr>Propertier = Some counting_propertier, PtrAutoGoIn = True,
                     ContainerEnd = False, IgnoreMissedBinding = True\<rparr>),
      top = 2\<rparr>"

definition slices_engine :: Traveller where
  "slices_engine =
     \<lparr>adapter = [], conf = Some 1, prefixes = [], suffixes = [],
      shortcuts = [], typeMethods = Map.empty, kindMethods = [KSlice \<mapsto> 0, KStruct \<mapsto> 1],
      typeOrder =
        [\<lparr>item_i = 0, item_n = ''ForContainerSlice'', item_o = 0, item_t = None,
           item_c = True, item_k = KSlice\<rparr>,
         \<lparr>item_i = 1, item_n = ''ForContainerStruct'', item_o = 0, item_t = None,
           item_c = True, item_k = KStruct\<rparr>],
      structTypeCache = Map.empty\<rparr>"

definition stateless :: "Method \<Rightarrow> Ins \<Rightarrow> nat \<Rightarrow> Outs \<times> nat" where
  "stateless m ins n = (Outs True None, n)"

subsection \<open>The children of a container, as a list\<close>

text \<open>
  \<open>visit_children\<close> traverses a list of children one after the other, each under the frame
  with the offset that the list gives it, and stops at the first child that fails (a
  child \<open>None\<close> is one that \<^verbatim>\<open>reflect\<close> could not read). The three lists are what the spec
  says of a map (for each entry the key, then the value, at the offsets \<open>2j\<close> and \<open>2j + 1\<close>)
  and what the loops over the indices of an array or a slice, over the keys of a map and
  over the Property list of a record do.
\<close>

fun visit_children ::
  "'w externs \<Rightarrow> 'w store \<Rightarrow> Traveller \<Rightarrow> parentInfo \<Rightarrow> (int \<times> Value option) list \<Rightarrow> 'w
     \<Rightarrow> error option result \<times> parentInfo \<times> 'w" where
  "visit_children X h t nxt [] w = (Returned None, nxt, w)"
| "visit_children X h t nxt ((off, None) # cs) w = (Panicked ReflectPanic, nxt, w)"
| "visit_children X h t nxt ((off, Some child) # cs) w =
     (case Traveller_traverse X h t (Some (nxt\<lparr>offset := off\<rparr>)) child w of
        (Returned None, w') \<Rightarrow> visit_children X h t (nxt\<lparr>offset := off\<rparr>) cs w'
      | (r, w') \<Rightarrow> (r, nxt\<lparr>offset := off\<rparr>, w'))"




definition struct_children :: "Value \<Rightarrow> Property list \<Rightarrow> nat \<Rightarrow> (int \<times> Value option) list" where
  "struct_children oldVal flds i =
     concat (map (\<lambda>j. if Index (flds ! j) < 0 then []
                       else [(int j, Field oldVal (Index (flds ! j)))])
       [i..<length flds])"



text \<open>What \<^verbatim>\<open>_traverse\<close> does once the children of a container are through.\<close>

definition after_children ::
  "'w externs \<Rightarrow> 'w store \<Rightarrow> Traveller \<Rightarrow> parentInfo option \<Rightarrow> Value
     \<Rightarrow> error option result \<times> parentInfo \<times> 'w \<Rightarrow> error option result \<times> 'w" where
  "after_children X h t parent oldVal res =
     (case res of
        (Returned None, nxt', w2) \<Rightarrow> container_end X h t parent nxt' oldVal w2
      | (Returned (Some e), nxt', w2) \<Rightarrow> (Returned (Some e), w2)
      | (Panicked p, nxt', w2) \<Rightarrow> (Panicked p, w2))"


text \<open>
  The frame that \<^verbatim>\<open>_call\<close> makes for a container (lines 194 to 201), and what \<^verbatim>\<open>_traverse\<close>
  does with the return of the binding that dispatch has called: of a binding called on
  the value alone, which opens no container, and of a start notification called on the
  frame \<open>info\<close>.
\<close>

definition new_frame :: "parentInfo option \<Rightarrow> Value \<Rightarrow> int \<Rightarrow> Property list \<Rightarrow> Method \<Rightarrow> parentInfo" where
  "new_frame parent val sz flds m =
     \<lparr>depth = nextDepth parent, pvalue = val, psize = sz, offset = - 1, structFields = flds,
      binding = m\<rparr>"

definition after_leaf ::
  "parentInfo option \<Rightarrow> Value \<Rightarrow> ItemType \<Rightarrow> Outs \<times> 'w \<Rightarrow> error option result \<times> 'w" where
  "after_leaf parent val itype ow =
     (case ow of (outs, w1) \<Rightarrow>
        (case parseReturns itype outs of
           (goin, Some e) \<Rightarrow> (Returned (Some e), w1)
         | (goin, None) \<Rightarrow>
             if goin then (Panicked (NeedNextParentInfo parent val), w1) else (Returned None, w1)))"

definition after_start ::
  "'w externs \<Rightarrow> 'w store \<Rightarrow> Traveller \<Rightarrow> parentInfo option \<Rightarrow> Value \<Rightarrow> ItemType \<Rightarrow> parentInfo
     \<Rightarrow> Outs \<times> 'w \<Rightarrow> error option result \<times> 'w" where
  "after_start X h t parent val itype info ow =
     (case ow of (outs, w1) \<Rightarrow>
        (case parseReturns itype outs of
           (goin, Some e) \<Rightarrow> (Returned (Some e), w1)
         | (goin, None) \<Rightarrow>
             if goin then after_children X h t parent val (walk_children X h t info val w1)
             else (Returned None, w1)))"

fun child_offsets :: "event list \<Rightarrow> int list" where
  "child_offsets [] = []"
| "child_offsets (Called m (callIns (Some p) v) outs # evs) = offset p # child_offsets evs"
| "child_offsets (Called m (startContainerIns (Some p) info v) outs # evs) = offset p # child_offsets evs"
| "child_offsets (ev # evs) = child_offsets evs"

definition skipping_propertier :: "Value \<Rightarrow> unit \<Rightarrow> (int \<times> Property list) \<times> unit" where
  "skipping_propertier val w =
     ((3, [\<lparr>Index = 0, Name = ''A'', IndexForReal = 0\<rparr>,
           \<lparr>Index = - 1, Name = ''-'', IndexForReal = 1\<rparr>,
           \<lparr>Index = 1, Name = ''F'', IndexForReal = 2\<rparr>]), w)"

definition skipping_store :: "(unit \<times> event list) store" where
  "skipping_store = logged_store
     \<lparr>cells = (\<lambda>a. \<lparr>Propertier = Some skipping_propertier, PtrAutoGoIn = True,
                     ContainerEnd = False, IgnoreMissedBinding = True\<rparr>),
      top = 2\<rparr>"

definition skipping_frame :: parentInfo where
  "skipping_frame = \<lparr>depth = 0, pvalue = Inner0, psize = 3, offset = - 1,
     structFields = snd (fst (skipping_propertier Inner0 ())),
     binding = 1\<rparr>"


definition maps_engine :: Traveller where
  "maps_engine =
     \<lparr>adapter = [], conf = Some 1, prefixes = [], suffixes = [ForAllKinds],
      shortcuts = [(ForAllKinds, 0)], typeMethods = Map.empty, kindMethods = [KMap \<mapsto> 1],
      typeOrder =
        [\<lparr>item_i = 1, item_n = ''ForContainerMap'', item_o = 0, item_t = None,
           item_c = True, item_k = KMap\<rparr>],
      structTypeCache = Map.empty\<rparr>"


text \<open>A map of the type \<^verbatim>\<open>map[float64]int\<close> whose one key is a NaN.\<close>

definition readings :: Value where
  "readings = MapV ''map[float64]int''
     (Some [(Scalar KFloat64 ''float64'' ''NaN'', Scalar KInt ''int'' ''1'')])"

definition readings_frame :: parentInfo where
  "readings_frame = \<lparr>depth = 0, pvalue = readings, psize = 2, offset = - 1, structFields = [],
     binding = 1\<rparr>"

text \<open>The frame that dispatch makes for the struct \<open>Inner0\<close> at the root, bound to the method \<open>m\<close>.\<close>

definition Inner0_frame :: "Method \<Rightarrow> parentInfo" where
  "Inner0_frame m = \<lparr>depth = 0, pvalue = Inner0, psize = 7, offset = - 1,
     structFields = default_properties (t_Fields (Type_of Inner0)) 0, binding = m\<rparr>"


definition failing_int_run :: "error option result \<times> unit \<times> event list" where
  "failing_int_run = Traverse (logged (demo fail_at_int)) st1 parser1_engine
       (Some (PtrV ''*Inner0'' (Some Inner0))) ((), [])"

section \<open>Properties of the traversal entry point\<close>

text \<open>
  C8. Calling \<^verbatim>\<open>Traverse\<close> with the nil interface as root is a no-op success: it returns no
  error, and the state of the adapter is the one before the call, so no callback was
  invoked (for a logging adapter, the log is unchanged).
\<close>

theorem Traverse_nil_root: "Traverse X h t None w = (Returned None, w)"
  by (simp add: Traverse_def)


section \<open>Properties of dispatch\<close>

text \<open>
  The engine \<open>parser5_engine\<close> is the one that \<^verbatim>\<open>NewTraveller\<close> builds for the adapter
  \<^verbatim>\<open>parser5\<close> of the tests (an all-kinds shortcut and a container binding for structs) with
  \<^verbatim>\<open>PtrAutoGoIn\<close> set.
\<close>

lemma parser5_built:
  "NewTraveller (demo f) (demo_store (demo_conf True False False)) (Some parser5) [Some 0]
     = (Returned (Inr parser5_engine), \<lparr>cells = (\<lambda>a. demo_conf True False False), top = 2\<rparr>)"
  by (simp add: NewTraveller_def parser5_def a_method_def demo_def demo_Which_def empty_registry_def
      Clone_def demo_store_def parser5_engine_def fun_upd_def)

lemma st5_PtrAutoGoIn: "conf_flag PtrAutoGoIn st5 parser5_engine"
  by (simp add: conf_flag_def st5_def parser5_engine_def logged_store_def logged_conf_def
      demo_store_def demo_conf_def)

lemma call_return_eq:
  "call_return itype info (Outs g e, w') =
     (Returned (g \<and> e = None, False, if e = None then info else None, Zero, e), w')"
  by (cases e) (auto simp: call_return_def)

text \<open>
  What the traversal of a value does when no prefix shortcut matches the value and the
  first ordered binding that matches it is a type binding, a kind binding that opens no
  container, or a container binding.
\<close>

lemma traverse_type_binding:
  assumes "IsValid v"
    and "\<forall>i \<in> set (prefixes t). \<not> MatchValue X i v"
    and "find (\<lambda>item. snd (snd (snd (match X item v)))) (typeOrder t) = Some item"
    and "match X item v = (itype, Some ty, kind, mt)"
    and "typeMethods t ty = Some m"
  shows "Traveller_traverse X h t parent v w = after_leaf parent v itype (Call X m (callIns parent v) w)"
proof -
  from assms(2) have p: "find (\<lambda>i. MatchValue X i v) (prefixes t) = None"
    by (simp add: find_None_iff)
  obtain g e w1 where c: "Call X m (callIns parent v) w = (Outs g e, w1)"
    by (metis Outs.exhaust prod.collapse)
  have "Traveller_call X h t parent v w
      = (Returned (g \<and> e = None, False, None, Zero, e), w1)"
    using assms(1) by (simp add: Traveller_call_def p assms(3) call_item_def assms(4,5) c call_return_eq)
  then show ?thesis
    using assms(1)
    by (simp add: Traveller_traverse.simps)
       (subst traverse_loop.simps, cases e, simp_all add: c after_leaf_def)
qed

lemma traverse_kind_binding:
  assumes "IsValid v"
    and "\<forall>i \<in> set (prefixes t). \<not> MatchValue X i v"
    and "find (\<lambda>item. snd (snd (snd (match X item v)))) (typeOrder t) = Some item"
    and "match X item v = (itype, None, kind, mt)"
    and "kind \<noteq> KInvalid" and "kind \<notin> containers"
    and "kindMethods t kind = Some m"
  shows "Traveller_traverse X h t parent v w = after_leaf parent v itype (Call X m (callIns parent v) w)"
proof -
  from assms(2) have p: "find (\<lambda>i. MatchValue X i v) (prefixes t) = None"
    by (simp add: find_None_iff)
  obtain g e w1 where c: "Call X m (callIns parent v) w = (Outs g e, w1)"
    by (metis Outs.exhaust prod.collapse)
  have "Traveller_call X h t parent v w
      = (Returned (g \<and> e = None, False, None, Zero, e), w1)"
    using assms(1)
    by (simp add: Traveller_call_def p assms(3) call_item_def assms(4,5,6,7) c call_return_eq)
  then show ?thesis
    using assms(1)
    by (simp add: Traveller_traverse.simps)
       (subst traverse_loop.simps, cases e, simp_all add: c after_leaf_def)
qed

lemma traverse_container_binding:
  assumes "IsValid v"
    and "\<forall>i \<in> set (prefixes t). \<not> MatchValue X i v"
    and "find (\<lambda>item. snd (snd (snd (match X item v)))) (typeOrder t) = Some item"
    and "match X item v = (itype, None, kind, mt)"
    and "kind \<noteq> KInvalid" and "kind \<in> containers"
    and "kindMethods t kind = Some m"
    and "container_size h t kind v w = (Returned (sz, flds), w0)"
  shows "Traveller_call X h t parent v w
           = call_return itype (Some (new_frame parent v sz flds m))
               (Call X m (startContainerIns parent (new_frame parent v sz flds m) v) w0)"
    and "Traveller_traverse X h t parent v w
           = after_start X h t parent v itype (new_frame parent v sz flds m)
               (Call X m (startContainerIns parent (new_frame parent v sz flds m) v) w0)"
proof -
  let ?info = "new_frame parent v sz flds m"
  from assms(2) have p: "find (\<lambda>i. MatchValue X i v) (prefixes t) = None"
    by (simp add: find_None_iff)
  obtain g e w1 where c: "Call X m (startContainerIns parent ?info v) w0 = (Outs g e, w1)"
    by (metis Outs.exhaust prod.collapse)
  show call: "Traveller_call X h t parent v w
      = call_return itype (Some ?info) (Call X m (startContainerIns parent ?info v) w0)"
    using assms(1)
    by (simp add: Traveller_call_def p assms(3) call_item_def assms(4,5,6,7,8) Let_def
        new_frame_def)
  then have "Traveller_call X h t parent v w
      = (Returned (g \<and> e = None, False, if e = None then Some ?info else None, Zero, e), w1)"
    by (simp add: c call_return_eq)
  then show "Traveller_traverse X h t parent v w
      = after_start X h t parent v itype ?info (Call X m (startContainerIns parent ?info v) w0)"
    using assms(1)
    by (simp add: Traveller_traverse.simps)
       (subst traverse_loop.simps, cases e, simp_all add: c after_start_def after_children_def)
qed

text \<open>
  C3. With \<^verbatim>\<open>PtrAutoGoIn\<close> set and neither a prefix shortcut nor an ordered binding matching
  the pointer itself, dispatch on a non-nil pointer invokes nothing and answers "re-enter"
  with the unchanged parent frame and the pointed-to value, and the traversal of the
  pointer is the very traversal of the pointee under that parent frame: the same result
  and the same effect on the adapter. So when the pointee is of a bound type (no prefix
  shortcut matches it and the first ordered binding that matches it is a type binding, a
  kind binding or a container binding), traversing the pointer invokes that binding: on
  the pointee and the parent frame of the pointer, which gives the callback its depth and
  its offset; and the frame made for a pointee that is a container has the depth
  \<open>nextDepth parent\<close>, the depth of a child of the parent, not one more. No frame is made
  for the unwrap and no child is counted.
\<close>

theorem pointer_unwrap_is_reentry:
  assumes "conf_flag PtrAutoGoIn h t"
    and "\<forall>itype \<in> set (prefixes t). \<not> MatchValue X itype (PtrV nm (Some v))"
    and "\<forall>item \<in> set (typeOrder t). \<not> snd (snd (snd (match X item (PtrV nm (Some v)))))"
    and "IsValid v"
  shows "Traveller_call X h t parent (PtrV nm (Some v)) w = (Returned (False, True, parent, v, None), w)
       \<and> Traveller_traverse X h t parent (PtrV nm (Some v)) w = Traveller_traverse X h t parent v w
       \<and> (\<forall>item itype ty kind mt m.
            (\<forall>i \<in> set (prefixes t). \<not> MatchValue X i v)
            \<and> find (\<lambda>item. snd (snd (snd (match X item v)))) (typeOrder t) = Some item
            \<and> match X item v = (itype, Some ty, kind, mt) \<and> typeMethods t ty = Some m \<longrightarrow>
              Traveller_traverse X h t parent (PtrV nm (Some v)) w
                = after_leaf parent v itype (Call X m (callIns parent v) w))
       \<and> (\<forall>item itype kind mt m.
            (\<forall>i \<in> set (prefixes t). \<not> MatchValue X i v)
            \<and> find (\<lambda>item. snd (snd (snd (match X item v)))) (typeOrder t) = Some item
            \<and> match X item v = (itype, None, kind, mt) \<and> kind \<noteq> KInvalid \<and> kind \<notin> containers
            \<and> kindMethods t kind = Some m \<longrightarrow>
              Traveller_traverse X h t parent (PtrV nm (Some v)) w
                = after_leaf parent v itype (Call X m (callIns parent v) w))
       \<and> (\<forall>item itype kind mt m sz flds w0.
            (\<forall>i \<in> set (prefixes t). \<not> MatchValue X i v)
            \<and> find (\<lambda>item. snd (snd (snd (match X item v)))) (typeOrder t) = Some item
            \<and> match X item v = (itype, None, kind, mt) \<and> kind \<noteq> KInvalid \<and> kind \<in> containers
            \<and> kindMethods t kind = Some m
            \<and> container_size h t kind v w = (Returned (sz, flds), w0) \<longrightarrow>
              Traveller_traverse X h t parent (PtrV nm (Some v)) w
                = after_start X h t parent v itype (new_frame parent v sz flds m)
                    (Call X m (startContainerIns parent (new_frame parent v sz flds m) v) w0)
              \<and> depth (new_frame parent v sz flds m) = nextDepth parent)"
proof -
  from assms(2) have p: "find (\<lambda>itype. MatchValue X itype (PtrV nm (Some v))) (prefixes t) = None"
    by (simp add: find_None_iff)
  from assms(3) have i: "find (\<lambda>item. snd (snd (snd (match X item (PtrV nm (Some v)))))) (typeOrder t) = None"
    by (simp add: find_None_iff)
  have call: "Traveller_call X h t parent (PtrV nm (Some v)) w = (Returned (False, True, parent, v, None), w)"
    using assms(1) by (simp add: Traveller_call_def p i)
  then have "traverse_loop X h t parent (PtrV nm (Some v)) w = traverse_loop X h t parent v w"
    using assms(4) by (subst traverse_loop.simps) simp
  then have eq: "Traveller_traverse X h t parent (PtrV nm (Some v)) w = Traveller_traverse X h t parent v w"
    using assms(4) by (simp add: Traveller_traverse.simps)
  have d: "depth (new_frame parent v sz flds m) = nextDepth parent" for sz flds m
    by (simp add: new_frame_def)
  show ?thesis
  proof (intro conjI allI impI)
    show "Traveller_call X h t parent (PtrV nm (Some v)) w = (Returned (False, True, parent, v, None), w)"
      by (rule call)
    show "Traveller_traverse X h t parent (PtrV nm (Some v)) w = Traveller_traverse X h t parent v w"
      by (rule eq)
  next
    fix item itype ty kind mt m
    assume "(\<forall>i \<in> set (prefixes t). \<not> MatchValue X i v)
        \<and> find (\<lambda>item. snd (snd (snd (match X item v)))) (typeOrder t) = Some item
        \<and> match X item v = (itype, Some ty, kind, mt) \<and> typeMethods t ty = Some m"
    then have a: "\<forall>i \<in> set (prefixes t). \<not> MatchValue X i v"
      and b: "find (\<lambda>item. snd (snd (snd (match X item v)))) (typeOrder t) = Some item"
      and c: "match X item v = (itype, Some ty, kind, mt)" and e: "typeMethods t ty = Some m"
      by simp_all
    show "Traveller_traverse X h t parent (PtrV nm (Some v)) w
        = after_leaf parent v itype (Call X m (callIns parent v) w)"
      unfolding eq by (rule traverse_type_binding [OF assms(4) a b c e])
  next
    fix item itype kind mt m
    assume "(\<forall>i \<in> set (prefixes t). \<not> MatchValue X i v)
        \<and> find (\<lambda>item. snd (snd (snd (match X item v)))) (typeOrder t) = Some item
        \<and> match X item v = (itype, None, kind, mt) \<and> kind \<noteq> KInvalid \<and> kind \<notin> containers
        \<and> kindMethods t kind = Some m"
    then have a: "\<forall>i \<in> set (prefixes t). \<not> MatchValue X i v"
      and b: "find (\<lambda>item. snd (snd (snd (match X item v)))) (typeOrder t) = Some item"
      and c: "match X item v = (itype, None, kind, mt)" and k: "kind \<noteq> KInvalid"
      and n: "kind \<notin> containers" and e: "kindMethods t kind = Some m"
      by simp_all
    show "Traveller_traverse X h t parent (PtrV nm (Some v)) w
        = after_leaf parent v itype (Call X m (callIns parent v) w)"
      unfolding eq by (rule traverse_kind_binding [OF assms(4) a b c k n e])
  next
    fix item itype kind mt m sz flds w0
    assume "(\<forall>i \<in> set (prefixes t). \<not> MatchValue X i v)
        \<and> find (\<lambda>item. snd (snd (snd (match X item v)))) (typeOrder t) = Some item
        \<and> match X item v = (itype, None, kind, mt) \<and> kind \<noteq> KInvalid \<and> kind \<in> containers
        \<and> kindMethods t kind = Some m
        \<and> container_size h t kind v w = (Returned (sz, flds), w0)"
    then have a: "\<forall>i \<in> set (prefixes t). \<not> MatchValue X i v"
      and b: "find (\<lambda>item. snd (snd (snd (match X item v)))) (typeOrder t) = Some item"
      and c: "match X item v = (itype, None, kind, mt)" and k: "kind \<noteq> KInvalid"
      and n: "kind \<in> containers" and e: "kindMethods t kind = Some m"
      and z: "container_size h t kind v w = (Returned (sz, flds), w0)"
      by simp_all
    show "Traveller_traverse X h t parent (PtrV nm (Some v)) w
        = after_start X h t parent v itype (new_frame parent v sz flds m)
            (Call X m (startContainerIns parent (new_frame parent v sz flds m) v) w0)"
      unfolding eq by (rule traverse_container_binding(2) [OF assms(4) a b c k n e z])
    show "depth (new_frame parent v sz flds m) = nextDepth parent" by (rule d)
  qed
qed

theorem pointer_unwrap_is_reentry_witness:
  "Traveller_call (logged (demo descend_all)) st5 parser5_engine None
       (PtrV ''*Inner0'' (Some Inner0)) ((), [])
     = (Returned (False, True, None, Inner0, None), ((), []))
   \<and> Traveller_traverse (logged (demo descend_all)) st5 parser5_engine None
       (PtrV ''*Inner0'' (Some Inner0)) ((), [])
     = Traveller_traverse (logged (demo descend_all)) st5 parser5_engine None Inner0 ((), [])
   \<and> Traveller_traverse (logged (demo descend_all)) st5 parser5_engine None
       (PtrV ''*Inner0'' (Some Inner0)) ((), [])
     = after_start (logged (demo descend_all)) st5 parser5_engine None Inner0 ForContainer
         (Inner0_frame 1)
         (Call (logged (demo descend_all)) 1 (startContainerIns None (Inner0_frame 1) Inner0) ((), []))
   \<and> depth (Inner0_frame 1) = 0
   \<and> hd (snd (snd (Traveller_traverse (logged (demo descend_all)) st5 parser5_engine None
         (PtrV ''*Inner0'' (Some Inner0)) ((), []))))
     = Called 1 (startContainerIns None (Inner0_frame 1) Inner0) (Outs True None)
   \<and> Traveller_traverse (logged (demo descend_containers)) st5 parser0_engine None
       (PtrV ''*int'' (Some seven)) ((), [])
     = after_leaf None seven ForAssign
         (Call (logged (demo descend_containers)) 0 (callIns None seven) ((), []))
   \<and> Traveller_traverse (logged (demo descend_containers)) st5 parser0_engine None
       (PtrV ''*int'' (Some seven)) ((), [])
     = (Returned None, ((), [Called 0 (callIns None seven) (Outs False None)]))"
proof -
  let ?X = "logged (demo descend_all)"
  let ?Y = "logged (demo descend_containers)"
  let ?item = "\<lparr>item_i = 1, item_n = ''ForContainerStruct'', item_o = 0, item_t = None,
                    item_c = True, item_k = KStruct\<rparr>"
  let ?first = "\<lparr>item_i = 0, item_n = ''ForAssign0'', item_o = 0, item_t = Some int_type,
           item_c = False, item_k = KInvalid\<rparr>"
  have 2: "\<forall>itype \<in> set (prefixes parser5_engine).
             \<not> MatchValue ?X itype (PtrV ''*Inner0'' (Some Inner0))"
    by (simp add: parser5_engine_def)
  have 3: "\<forall>item \<in> set (typeOrder parser5_engine).
             \<not> snd (snd (snd (match ?X item (PtrV ''*Inner0'' (Some Inner0)))))"
    by (simp add: parser5_engine_def logged_def demo_def demo_match_def)
  have 4: "IsValid Inner0" by (simp add: Inner0_def)
  note T = pointer_unwrap_is_reentry [OF st5_PtrAutoGoIn 2 3 4, of None "((), [])"]
  have a: "\<forall>i \<in> set (prefixes parser5_engine). \<not> MatchValue ?X i Inner0"
    by (simp add: parser5_engine_def)
  have b: "find (\<lambda>item. snd (snd (snd (match ?X item Inner0)))) (typeOrder parser5_engine) = Some ?item"
    by (simp add: parser5_engine_def logged_def demo_def demo_match_def Inner0_def)
  have c: "match ?X ?item Inner0 = (ForContainer, None, KStruct, True)"
    by (simp add: logged_def demo_def demo_match_def Inner0_def)
  have d: "KStruct \<noteq> KInvalid" "KStruct \<in> containers" "kindMethods parser5_engine KStruct = Some 1"
    by (simp_all add: containers_def parser5_engine_def)
  have e: "container_size st5 parser5_engine KStruct Inner0 ((), [])
      = (Returned (7, default_properties (t_Fields (Type_of Inner0)) 0), ((), []))"
    by code_simp
  have f: "new_frame None Inner0 7 (default_properties (t_Fields (Type_of Inner0)) 0) 1 = Inner0_frame 1"
    by (simp add: new_frame_def Inner0_frame_def)
  from T a b c d e
  have "Traveller_traverse ?X st5 parser5_engine None (PtrV ''*Inner0'' (Some Inner0)) ((), [])
      = after_start ?X st5 parser5_engine None Inner0 ForContainer
          (new_frame None Inner0 7 (default_properties (t_Fields (Type_of Inner0)) 0) 1)
          (Call ?X 1 (startContainerIns None
             (new_frame None Inner0 7 (default_properties (t_Fields (Type_of Inner0)) 0) 1) Inner0) ((), []))"
    by blast
  then have r3: "Traveller_traverse ?X st5 parser5_engine None (PtrV ''*Inner0'' (Some Inner0)) ((), [])
      = after_start ?X st5 parser5_engine None Inner0 ForContainer (Inner0_frame 1)
          (Call ?X 1 (startContainerIns None (Inner0_frame 1) Inner0) ((), []))"
    by (simp only: f)
  from T have r1: "Traveller_call ?X st5 parser5_engine None (PtrV ''*Inner0'' (Some Inner0)) ((), [])
      = (Returned (False, True, None, Inner0, None), ((), []))"
    and r2: "Traveller_traverse ?X st5 parser5_engine None (PtrV ''*Inner0'' (Some Inner0)) ((), [])
      = Traveller_traverse ?X st5 parser5_engine None Inner0 ((), [])"
    by blast+
  have r4: "depth (Inner0_frame 1) = 0" by (simp add: Inner0_frame_def)
  have r5: "hd (snd (snd (Traveller_traverse ?X st5 parser5_engine None
         (PtrV ''*Inner0'' (Some Inner0)) ((), []))))
      = Called 1 (startContainerIns None (Inner0_frame 1) Inner0) (Outs True None)"
    by code_simp
  have flag0: "conf_flag PtrAutoGoIn st5 parser0_engine"
    by (simp add: conf_flag_def st5_def parser0_engine_def logged_store_def logged_conf_def
        demo_store_def demo_conf_def)
  have p2: "\<forall>itype \<in> set (prefixes parser0_engine). \<not> MatchValue ?Y itype (PtrV ''*int'' (Some seven))"
    by (simp add: parser0_engine_def)
  have p3: "\<forall>item \<in> set (typeOrder parser0_engine).
             \<not> snd (snd (snd (match ?Y item (PtrV ''*int'' (Some seven)))))"
    by (simp add: parser0_engine_def logged_def demo_def demo_match_def int_type_def)
  have p4: "IsValid seven" by (simp add: seven_def)
  note T0 = pointer_unwrap_is_reentry [OF flag0 p2 p3 p4, of None "((), [])"]
  have a0: "\<forall>i \<in> set (prefixes parser0_engine). \<not> MatchValue ?Y i seven"
    by (simp add: parser0_engine_def)
  have b0: "find (\<lambda>item. snd (snd (snd (match ?Y item seven)))) (typeOrder parser0_engine) = Some ?first"
    by (simp add: parser0_engine_def logged_def demo_def demo_match_def seven_def int_type_def)
  have c0: "match ?Y ?first seven = (ForAssign, Some int_type, KInvalid, True)"
    by (simp add: logged_def demo_def demo_match_def seven_def int_type_def)
  have d0: "typeMethods parser0_engine int_type = Some 0" by (simp add: parser0_engine_def)
  from T0 a0 b0 c0 d0
  have r6: "Traveller_traverse ?Y st5 parser0_engine None (PtrV ''*int'' (Some seven)) ((), [])
      = after_leaf None seven ForAssign (Call ?Y 0 (callIns None seven) ((), []))"
    by blast
  have "after_leaf None seven ForAssign (Call ?Y 0 (callIns None seven) ((), []))
      = (Returned None, ((), [Called 0 (callIns None seven) (Outs False None)]))"
    by (simp add: after_leaf_def logged_def demo_def)
  with r6 have r7: "Traveller_traverse ?Y st5 parser0_engine None (PtrV ''*int'' (Some seven)) ((), [])
      = (Returned None, ((), [Called 0 (callIns None seven) (Outs False None)]))"
    by simp
  show ?thesis by (intro conjI) (rule r1 r2 r3 r4 r5 r6 r7)+
qed

text \<open>
  C9. With \<^verbatim>\<open>PtrAutoGoIn\<close> set, a nil pointer that no prefix shortcut and no ordered binding
  matches is finished at once: the traversal returns no error and leaves the adapter's
  state (and so its log) as it was. The suffix shortcuts are not looked at, whatever they
  are: in the instance below the all-kinds shortcut is bound and matches every value, and
  it is not invoked.
\<close>

theorem nil_pointer_skips_suffixes:
  assumes "conf_flag PtrAutoGoIn h t"
    and "\<forall>itype \<in> set (prefixes t). \<not> MatchValue X itype (PtrV nm None)"
    and "\<forall>item \<in> set (typeOrder t). \<not> snd (snd (snd (match X item (PtrV nm None))))"
  shows "Traveller_traverse X h t parent (PtrV nm None) w = (Returned None, w)"
proof -
  from assms(2) have p: "find (\<lambda>itype. MatchValue X itype (PtrV nm None)) (prefixes t) = None"
    by (simp add: find_None_iff)
  from assms(3) have i: "find (\<lambda>item. snd (snd (snd (match X item (PtrV nm None))))) (typeOrder t) = None"
    by (simp add: find_None_iff)
  have "Traveller_call X h t parent (PtrV nm None) w = (Returned (False, False, parent, Zero, None), w)"
    using assms(1) by (simp add: Traveller_call_def p i)
  then have "traverse_loop X h t parent (PtrV nm None) w = (Returned None, w)"
    by (subst traverse_loop.simps) simp
  then show ?thesis
    by (simp add: Traveller_traverse.simps)
qed

theorem nil_pointer_skips_suffixes_witness:
  "map_of (shortcuts parser5_engine) ForAllKinds = Some 0
   \<and> find (\<lambda>itype. MatchValue (logged (demo descend_all)) itype (PtrV ''*Inner0'' None))
        (suffixes parser5_engine) = Some ForAllKinds
   \<and> Traveller_traverse (logged (demo descend_all)) st5 parser5_engine None
        (PtrV ''*Inner0'' None) ((), []) = (Returned None, ((), []))"
proof -
  have 2: "\<forall>itype \<in> set (prefixes parser5_engine).
             \<not> MatchValue (logged (demo descend_all)) itype (PtrV ''*Inner0'' None)"
    by (simp add: parser5_engine_def)
  have 3: "\<forall>item \<in> set (typeOrder parser5_engine).
             \<not> snd (snd (snd (match (logged (demo descend_all)) item (PtrV ''*Inner0'' None))))"
    by (simp add: parser5_engine_def logged_def demo_def demo_match_def)
  have "map_of (shortcuts parser5_engine) ForAllKinds = Some 0"
    by (simp add: parser5_engine_def)
  moreover have "find (\<lambda>itype. MatchValue (logged (demo descend_all)) itype (PtrV ''*Inner0'' None))
        (suffixes parser5_engine) = Some ForAllKinds"
    by (simp add: parser5_engine_def logged_def demo_def)
  ultimately show ?thesis
    using nil_pointer_skips_suffixes [OF st5_PtrAutoGoIn 2 3] by simp
qed


section \<open>Properties of construction\<close>

declare bind_methods.simps(2) [simp del]

lemma bind_skip:
  "binding_target X m = None \<Longrightarrow> signature_ok X m
     \<Longrightarrow> bind_methods X (m # ms) i r = bind_methods X ms (i + 1) r"
  by (subst bind_methods.simps)
     (auto simp: binding_target_def signature_ok_def split: prod.splits if_splits option.splits)


lemma bind_dup:
  "binding_target X m = Some k \<Longrightarrow> k \<in> reg_targets r
     \<Longrightarrow> \<exists>e. bind_methods X (m # ms) i r = Returned (Inl e) \<and> is_duplicate e"
  by (subst bind_methods.simps)
     (auto simp: binding_target_def reg_targets_def dom_def
           split: prod.splits if_splits option.splits)

lemma bind_new:
  "binding_target X m = Some k \<Longrightarrow> k \<notin> reg_targets r
     \<Longrightarrow> \<exists>r'. bind_methods X (m # ms) i r = bind_methods X ms (i + 1) r'
            \<and> reg_targets r' = insert k (reg_targets r)
            \<and> (reg_items r' \<noteq> [] \<or> reg_shortcuts r' \<noteq> [])"
proof -
  assume k: "binding_target X m = Some k" and new: "k \<notin> reg_targets r"
  obtain itype inKind ok where W: "Which X (m_Name m) = (itype, inKind, ok)"
    by (cases "Which X (m_Name m)") auto
  from k W have v: "ok" "IsValidWithReceiver X itype m"
    by (auto simp: binding_target_def split: if_splits)
  consider (ty) "itype = ForImpl \<or> itype = ForAssign"
    | (kd) "\<not> (itype = ForImpl \<or> itype = ForAssign)" "itype = ForKind \<or> itype = ForContainer"
    | (sc) "\<not> (itype = ForImpl \<or> itype = ForAssign)" "\<not> (itype = ForKind \<or> itype = ForContainer)"
           "itype = ForNilPtr \<or> itype = ForIntX \<or> itype = ForUintX \<or> itype = ForAllKinds"
    using k W v by (auto simp: binding_target_def split: if_splits)
  then show ?thesis
  proof cases
    case ty
    with k W v obtain inType where t: "nth_opt (m_In m) (ParamLength X itype) = Some inType"
        "k = TypeTarget inType"
      by (auto simp: binding_target_def)
    with new have none: "reg_typeMethods r inType = None" by (auto simp: reg_targets_def)
    let ?r' = "r\<lparr>reg_items := reg_items r @
                     [\<lparr>item_i = i, item_n = m_Name m, item_o = 0, item_t = Some inType,
                       item_c = False, item_k = KInvalid\<rparr>],
                   reg_typeMethods := (reg_typeMethods r)(inType \<mapsto> i)\<rparr>"
    have "bind_methods X (m # ms) i r = bind_methods X ms (i + 1) ?r'"
      using W v ty t(1) none by (subst bind_methods.simps) simp
    moreover have "reg_targets ?r' = insert k (reg_targets r)"
      using t(2) by (simp add: reg_targets_def)
    moreover have "reg_items ?r' \<noteq> []" by simp
    ultimately show ?thesis by blast
  next
    case kd
    with k W v have t: "k = KindTarget inKind" by (auto simp: binding_target_def)
    with new have none: "reg_kindMethods r inKind = None" by (auto simp: reg_targets_def)
    let ?r' = "r\<lparr>reg_items := reg_items r @
                     [\<lparr>item_i = i, item_n = m_Name m, item_o = 0, item_t = None,
                       item_c = (itype = ForContainer), item_k = inKind\<rparr>],
                   reg_kindMethods := (reg_kindMethods r)(inKind \<mapsto> i)\<rparr>"
    have "bind_methods X (m # ms) i r = bind_methods X ms (i + 1) ?r'"
      using W v kd none by (subst bind_methods.simps) simp
    moreover have "reg_targets ?r' = insert k (reg_targets r)"
      using t by (simp add: reg_targets_def)
    moreover have "reg_items ?r' \<noteq> []" by simp
    ultimately show ?thesis by blast
  next
    case sc
    with k W v have t: "k = ShortcutTarget itype" by (auto simp: binding_target_def)
    with new have none: "map_of (reg_shortcuts r) itype = None" by (auto simp: reg_targets_def)
    let ?r' = "r\<lparr>reg_shortcuts := reg_shortcuts r @ [(itype, i)]\<rparr>"
    have "bind_methods X (m # ms) i r = bind_methods X ms (i + 1) ?r'"
      using W v sc none by (subst bind_methods.simps) simp
    moreover have "reg_targets ?r' = insert k (reg_targets r)"
      using t by (simp add: reg_targets_def dom_map_add Un_commute)
    moreover have "reg_shortcuts ?r' \<noteq> []" by simp
    ultimately show ?thesis by blast
  qed
qed

lemma bind_methods_duplicate:
  "list_all (signature_ok X) ms
     \<Longrightarrow> (\<exists>k \<in> set (List.map_filter (binding_target X) ms). k \<in> reg_targets r)
          \<or> \<not> distinct (List.map_filter (binding_target X) ms)
     \<Longrightarrow> \<exists>e. bind_methods X ms i r = Returned (Inl e) \<and> is_duplicate e"
proof (induction ms arbitrary: i r)
  case Nil
  then show ?case by (simp add: List.map_filter_simps)
next
  case (Cons m ms)
  from Cons.prems(1) have ok: "signature_ok X m" "list_all (signature_ok X) ms" by simp_all
  show ?case
  proof (cases "binding_target X m")
    case None
    with Cons.prems(2) have "(\<exists>k \<in> set (List.map_filter (binding_target X) ms). k \<in> reg_targets r)
          \<or> \<not> distinct (List.map_filter (binding_target X) ms)"
      by (simp add: List.map_filter_simps)
    from Cons.IH [OF ok(2) this] bind_skip [OF None ok(1)] show ?thesis by simp
  next
    case (Some k)
    show ?thesis
    proof (cases "k \<in> reg_targets r")
      case True
      with Some show ?thesis by (rule bind_dup)
    next
      case False
      from bind_new [OF Some False] obtain r' where
        r': "bind_methods X (m # ms) i r = bind_methods X ms (i + 1) r'"
            "reg_targets r' = insert k (reg_targets r)" by blast
      from Cons.prems(2) Some False have "(\<exists>k \<in> set (List.map_filter (binding_target X) ms). k \<in> reg_targets r')
          \<or> \<not> distinct (List.map_filter (binding_target X) ms)"
        by (auto simp: List.map_filter_simps r'(2))
      from Cons.IH [OF ok(2) this] r'(1) show ?thesis by simp
    qed
  qed
qed

lemma bind_methods_none:
  "list_all (signature_ok X) ms \<Longrightarrow> List.map_filter (binding_target X) ms = []
     \<Longrightarrow> bind_methods X ms i r = Returned (Inr r)"
proof (induction ms arbitrary: i)
  case Nil
  then show ?case by simp
next
  case (Cons m ms)
  from Cons.prems(1) have ok: "signature_ok X m" "list_all (signature_ok X) ms" by simp_all
  from Cons.prems(2) have none: "binding_target X m = None"
      "List.map_filter (binding_target X) ms = []"
    by (auto simp: List.map_filter_simps split: option.splits)
  from bind_skip [OF none(1) ok(1)] Cons.IH [OF ok(2) none(2)] show ?case by simp
qed

text \<open>
  C7. For an adapter that is not nil: if two of its exposed operations classify into the
  same (category family, target) pair (two type bindings for one type, two kind or
  container bindings for one kind, two bindings for one shortcut), \<^verbatim>\<open>NewTraveller\<close> fails
  with one of the three duplicated-binding errors and leaves the store alone; if no
  operation classifies into anything, it fails with the error "no available binding
  function found", which is none of the duplicated-binding errors.
\<close>

theorem NewTraveller_rejects:
  assumes "list_all (signature_ok X) methods"
  shows "(\<not> distinct (List.map_filter (binding_target X) methods) \<longrightarrow>
            (\<exists>e. NewTraveller X h (Some methods) config = (Returned (Inl e), h) \<and> is_duplicate e))
       \<and> (List.map_filter (binding_target X) methods = [] \<longrightarrow>
            NewTraveller X h (Some methods) config = (Returned (Inl NoBindingFound), h))
       \<and> \<not> is_duplicate NoBindingFound"
proof (intro conjI impI)
  assume "\<not> distinct (List.map_filter (binding_target X) methods)"
  then obtain e where "bind_methods X methods 0 empty_registry = Returned (Inl e)" "is_duplicate e"
    using bind_methods_duplicate [OF assms, of empty_registry 0] by blast
  then show "\<exists>e. NewTraveller X h (Some methods) config = (Returned (Inl e), h) \<and> is_duplicate e"
    by (simp add: NewTraveller_def)
next
  assume "List.map_filter (binding_target X) methods = []"
  from bind_methods_none [OF assms this]
  show "NewTraveller X h (Some methods) config = (Returned (Inl NoBindingFound), h)"
    by (simp add: NewTraveller_def empty_registry_def)
qed simp

theorem NewTraveller_rejects_witness:
  "(\<exists>e. NewTraveller (demo descend_containers) (demo_store (demo_conf False False False))
          (Some [\<lparr>m_Name = ''ForAssign0'', m_In = a_signature int_type\<rparr>,
                 \<lparr>m_Name = ''ForAssign1'', m_In = a_signature int_type\<rparr>]) []
        = (Returned (Inl e), demo_store (demo_conf False False False)) \<and> is_duplicate e)
   \<and> NewTraveller (demo descend_containers) (demo_store (demo_conf False False False))
        (Some [\<lparr>m_Name = ''String'', m_In = []\<rparr>]) []
        = (Returned (Inl NoBindingFound), demo_store (demo_conf False False False))"
proof -
  let ?X = "demo descend_containers"
  let ?two = "[\<lparr>m_Name = ''ForAssign0'', m_In = a_signature int_type\<rparr>,
               \<lparr>m_Name = ''ForAssign1'', m_In = a_signature int_type\<rparr>]"
  let ?none = "[\<lparr>m_Name = ''String'', m_In = []\<rparr>]"
  have ok2: "list_all (signature_ok ?X) ?two"
    by (simp add: signature_ok_def demo_def demo_Which_def a_signature_def nth_opt_def)
  have dup: "\<not> distinct (List.map_filter (binding_target ?X) ?two)"
    by (simp add: List.map_filter_simps binding_target_def demo_def demo_Which_def
        a_signature_def nth_opt_def)
  have ok0: "list_all (signature_ok ?X) ?none"
    by (simp add: signature_ok_def demo_def demo_Which_def)
  have none: "List.map_filter (binding_target ?X) ?none = []"
    by (simp add: List.map_filter_simps binding_target_def demo_def demo_Which_def)
  from NewTraveller_rejects [OF ok2, of "demo_store (demo_conf False False False)" "[]"] dup
       NewTraveller_rejects [OF ok0, of "demo_store (demo_conf False False False)" "[]"] none
  show ?thesis by blast
qed

section \<open>The log of a traversal has the shape of the walk\<close>

lemma faithful_logged: "faithful snd (logged X)"
  by (simp add: faithful_def logged_def split: prod.splits)

lemma quiet_logged: "quiet snd (logged_store h)"
  by (auto simp: quiet_def logged_store_def logged_conf_def split: prod.splits)

lemma faithful_Call:
  "faithful obs X \<Longrightarrow> Call X m ins w = (outs, w') \<Longrightarrow> obs w' = obs w @ [Called m ins outs]"
  by (auto simp: faithful_def dest!: spec [of _ m] spec [of _ ins] spec [of _ w])

lemma call_shortcut_outcome:
  assumes "faithful obs X" and "call_shortcut X t parent val itype w = (rc, w1)"
  shows "\<exists>tr. obs w1 = obs w @ tr \<and> call_outcome parent val tr rc"
proof (cases "map_of (shortcuts t) itype")
  case None
  with assms(2) show ?thesis by (auto simp: call_shortcut_def call_outcome_def)
next
  case (Some m)
  obtain outs w' where c: "Call X m (callIns parent val) w = (outs, w')"
    by (cases "Call X m (callIns parent val) w") auto
  obtain g e where o: "outs = Outs g e" by (cases outs) auto
  from faithful_Call [OF assms(1) c] assms(2) Some c o show ?thesis
    by (auto simp: call_shortcut_def call_outcome_def)
qed

lemma quiet_Propertier:
  assumes "quiet obs h" and "Propertier (cells h a) = Some P" and "P val w = (r, w1)"
  shows "obs w1 = obs w"
proof -
  from assms(1,2) have "obs (snd (P val w)) = obs w" unfolding quiet_def by blast
  with assms(3) show ?thesis by simp
qed

lemma structProperties_quiet:
  "quiet obs h \<Longrightarrow> Traveller_structProperties h t val w = (r, w1) \<Longrightarrow> obs w1 = obs w"
  by (auto simp: Traveller_structProperties_def Let_def
           split: if_splits option.splits prod.splits
           dest: quiet_Propertier)

lemma container_size_quiet:
  "quiet obs h \<Longrightarrow> container_size h t kind val w = (r, w1) \<Longrightarrow> obs w1 = obs w"
  by (auto simp: container_size_def split: if_splits option.splits bool.splits
           dest: structProperties_quiet)


lemma call_item_outcome:
  assumes "faithful obs X" and "quiet obs h" and "call_item X h t parent val item w = (rc, w1)"
  shows "\<exists>tr. obs w1 = obs w @ tr \<and> call_outcome parent val tr rc"
proof -
  obtain itype tp kind mt where M: "match X item val = (itype, tp, kind, mt)"
    by (cases "match X item val") auto
  have plain: "\<exists>tr. obs w1 = obs w @ tr \<and> call_outcome parent val tr rc"
    if "call_return itype None (Call X fVal (callIns parent val) w) = (rc, w1)" for fVal
  proof -
    obtain outs w' where c: "Call X fVal (callIns parent val) w = (outs, w')"
      by (cases "Call X fVal (callIns parent val) w") auto
    obtain g e where o: "outs = Outs g e" by (cases outs) auto
    from faithful_Call [OF assms(1) c] that c o show ?thesis
      by (auto simp: call_return_eq call_outcome_def)
  qed
  show ?thesis
  proof (cases tp)
    case (Some ty)
    show ?thesis
    proof (cases "typeMethods t ty")
      case None
      with assms(3) M Some show ?thesis by (auto simp: call_item_def call_outcome_def)
    next
      case (Some fVal)
      with assms(3) M \<open>tp = Some ty\<close> show ?thesis by (auto simp: call_item_def intro: plain)
    qed
  next
    case None
    show ?thesis
    proof (cases "kind \<noteq> KInvalid")
      case False
      with assms(3) M None show ?thesis by (auto simp: call_item_def call_outcome_def)
    next
      case True
      show ?thesis
      proof (cases "kindMethods t kind")
        case None
        with assms(3) M \<open>tp = None\<close> True show ?thesis
          by (auto simp: call_item_def call_outcome_def)
      next
        case (Some fVal)
        show ?thesis
        proof (cases "kind \<in> containers")
          case False
          with assms(3) M \<open>tp = None\<close> True Some show ?thesis
            by (auto simp: call_item_def intro: plain)
        next
          case cont: True
          obtain rs w0 where cs: "container_size h t kind val w = (rs, w0)"
            by (cases "container_size h t kind val w") auto
          from container_size_quiet [OF assms(2) cs] have q: "obs w0 = obs w" .
          show ?thesis
          proof (cases rs)
            case (Panicked p)
            with assms(3) M \<open>tp = None\<close> True Some cont cs q show ?thesis
              by (auto simp: call_item_def call_outcome_def)
          next
            case (Returned sf)
            obtain sz flds where sf: "sf = (sz, flds)" by (cases sf) auto
            define info where "info = \<lparr>depth = nextDepth parent, pvalue = val, psize = sz,
                offset = - 1, structFields = flds, binding = fVal\<rparr>"
            obtain outs w' where c: "Call X fVal (startContainerIns parent info val) w0 = (outs, w')"
              by (cases "Call X fVal (startContainerIns parent info val) w0") auto
            obtain g e where o: "outs = Outs g e" by (cases outs) auto
            have b: "binding info = fVal" by (simp add: info_def)
            from assms(3) M \<open>tp = None\<close> True Some cont cs Returned sf c o
            have "rc = Returned (g \<and> e = None, False, if e = None then Some info else None, Zero, e)"
              and "w1 = w'"
              by (auto simp: call_item_def call_return_eq Let_def info_def [symmetric])
            with faithful_Call [OF assms(1) c] q o b show ?thesis
              unfolding call_outcome_def by auto
          qed
        qed
      qed
    qed
  qed
qed

lemma Traveller_call_outcome:
  assumes "faithful obs X" and "quiet obs h" and "Traveller_call X h t parent val w = (rc, w1)"
  shows "\<exists>tr. obs w1 = obs w @ tr \<and> call_outcome parent val tr rc"
  using assms(3)
  by (auto simp: Traveller_call_def call_outcome_def [of _ _ "[]"]
      split: if_splits option.splits bool.splits
      intro: call_shortcut_outcome [OF assms(1)] call_item_outcome [OF assms(1,2)])


lemma container_end_outcome:
  assumes "faithful obs X" and "container_end X h t parent nxt oldVal w = (r, w1)"
  shows "(conf_flag ContainerEnd h t \<and>
            (\<exists>g e. obs w1 = obs w @ [Called (binding nxt) (endContainerIns parent nxt oldVal) (Outs g e)]
                 \<and> r = Returned (map_option ContainerEndFailed e)))
         \<or> (\<not> conf_flag ContainerEnd h t \<and> w1 = w \<and> r = Returned None)"
proof (cases "conf_flag ContainerEnd h t")
  case False
  with assms(2) show ?thesis by (simp add: container_end_def)
next
  case True
  obtain outs w' where c: "Call X (binding nxt) (endContainerIns parent nxt oldVal) w = (outs, w')"
    by (cases "Call X (binding nxt) (endContainerIns parent nxt oldVal) w") auto
  obtain g e where o: "outs = Outs g e" by (cases outs) auto
  from faithful_Call [OF assms(1) c] assms(2) True c o show ?thesis
    by (cases e) (auto simp: container_end_def)
qed

lemma traverse_loop_shape_step:
  assumes f: "faithful obs X" and q: "quiet obs h"
    and run: "traverse_loop X h t parent oldVal w = (r, w1)"
    and IH1: "\<And>goin nxt newVal w0 r w1.
        Traveller_call X h t parent oldVal w = (Returned (goin, True, nxt, newVal, None), w0)
        \<Longrightarrow> IsValid newVal \<Longrightarrow> traverse_loop X h t parent newVal w0 = (r, w1)
        \<Longrightarrow> \<exists>tr. obs w1 = obs w0 @ tr \<and> node_shape (conf_flag ContainerEnd h t) parent tr r"
    and IH2: "\<And>info newVal w0 r nxt' w1.
        Traveller_call X h t parent oldVal w = (Returned (True, False, Some info, newVal, None), w0)
        \<Longrightarrow> walk_children X h t info oldVal w0 = (r, nxt', w1)
        \<Longrightarrow> \<exists>tr k. obs w1 = obs w0 @ tr \<and> seq_shape (conf_flag ContainerEnd h t) info tr r
              \<and> nxt' = info\<lparr>offset := k\<rparr>"
  shows "\<exists>tr. obs w1 = obs w @ tr \<and> node_shape (conf_flag ContainerEnd h t) parent tr r"
proof -
  let ?ce = "conf_flag ContainerEnd h t"
  obtain rc w0 where call: "Traveller_call X h t parent oldVal w = (rc, w0)"
    by (cases "Traveller_call X h t parent oldVal w") auto
  from Traveller_call_outcome [OF f q call] obtain tr0 where
    tr0: "obs w0 = obs w @ tr0" and oc: "call_outcome parent oldVal tr0 rc" by blast
  from run call have run': "(case rc of
        Panicked p \<Rightarrow> (Panicked p, w0)
      | Returned (goin, reEnter, nxt, newVal, err) \<Rightarrow>
          (case err of
             Some e \<Rightarrow> (Returned (Some e), w0)
           | None \<Rightarrow>
               if reEnter then
                 (if \<not> IsValid newVal then (Panicked (ReenterNeedValid oldVal), w0)
                  else traverse_loop X h t parent newVal w0)
               else if \<not> goin then (Returned None, w0)
               else
                 (case nxt of
                    None \<Rightarrow> (Panicked (NeedNextParentInfo parent oldVal), w0)
                  | Some next \<Rightarrow>
                      (case walk_children X h t next oldVal w0 of
                         (Returned None, next', w2) \<Rightarrow> container_end X h t parent next' oldVal w2
                       | (Returned (Some e), next', w2) \<Rightarrow> (Returned (Some e), w2)
                       | (Panicked p, next', w2) \<Rightarrow> (Panicked p, w2))))) = (r, w1)"
    by (subst (asm) traverse_loop.simps) simp
  from oc consider
      (none) "tr0 = []" "\<forall>goin reEnter nxt nv err. rc = Returned (goin, reEnter, nxt, nv, err) \<longrightarrow> \<not> goin"
    | (leaf) m g e where "tr0 = [Called m (callIns parent oldVal) (Outs g e)]"
        "rc = Returned (g \<and> e = None, False, None, Zero, e)"
    | (short) m g e where "tr0 = [Called m (callIns parent oldVal) (Outs g e)]"
        "rc = Returned (False, False, None, Zero, e)"
    | (start) info g e where
        "tr0 = [Called (binding info) (startContainerIns parent info oldVal) (Outs g e)]"
        "rc = Returned (g \<and> e = None, False, if e = None then Some info else None, Zero, e)"
    unfolding call_outcome_def by blast
  then show ?thesis
  proof cases
    case none
    show ?thesis
    proof (cases rc)
      case (Panicked p)
      with run' tr0 none show ?thesis by (auto intro: node_shape_seq_shape.silent)
    next
      case (Returned x)
      obtain goin reEnter nxt newVal err where x: "x = (goin, reEnter, nxt, newVal, err)"
        by (cases x) auto
      from none(2) Returned x have ng: "\<not> goin" by simp
      show ?thesis
      proof (cases "err = None \<and> reEnter \<and> IsValid newVal")
        case True
        with run' Returned x have "traverse_loop X h t parent newVal w0 = (r, w1)" by simp
        from IH1 [OF _ _ this, of goin nxt] call Returned x True
        obtain tr where "obs w1 = obs w0 @ tr" "node_shape ?ce parent tr r" by auto
        with tr0 none show ?thesis by auto
      next
        case False
        with run' Returned x ng have "w1 = w0" by (auto split: option.splits if_splits)
        with tr0 none show ?thesis by (auto intro: node_shape_seq_shape.silent)
      qed
    qed
  next
    case leaf
    with run' have "w1 = w0"
        "r = Returned e \<or> (g \<and> e = None \<and> r = Panicked (NeedNextParentInfo parent oldVal))"
      by (auto split: option.splits if_splits)
    with tr0 leaf show ?thesis
      by (auto intro: node_shape_seq_shape.leaf node_shape_seq_shape.leaf_panic)
  next
    case short
    with run' have "w1 = w0" "r = Returned e" by (auto split: option.splits if_splits)
    with tr0 short show ?thesis by (auto intro: node_shape_seq_shape.leaf)
  next
    case start
    show ?thesis
    proof (cases "g \<and> e = None")
      case False
      with run' start have "w1 = w0" "r = Returned e" by (auto split: option.splits if_splits)
      with tr0 start False show ?thesis by (auto intro: node_shape_seq_shape.stopped)
    next
      case True
      then have g: "g" and e: "e = None" by simp_all
      obtain rc' nxt' w2 where wc: "walk_children X h t info oldVal w0 = (rc', nxt', w2)"
        by (cases "walk_children X h t info oldVal w0") auto
      from call start g e have call': "Traveller_call X h t parent oldVal w
          = (Returned (True, False, Some info, Zero, None), w0)" by simp
      from IH2 [OF call' wc] obtain trc k where
        trc: "obs w2 = obs w0 @ trc" "seq_shape ?ce info trc rc'" "nxt' = info\<lparr>offset := k\<rparr>" by blast
      show ?thesis
      proof (cases "rc' = Returned None")
        case False
        with run' start g e wc have "r = rc'" "w1 = w2"
          by (auto split: result.splits option.splits)
        with tr0 trc start g e False show ?thesis
          by (auto intro: node_shape_seq_shape.aborted)
      next
        case True
        with run' start g e wc have ce: "container_end X h t parent nxt' oldVal w2 = (r, w1)"
          by simp
        from container_end_outcome [OF f ce] show ?thesis
        proof (elim disjE conjE exE)
          fix g' e'
          assume "?ce" and "obs w1 = obs w2 @ [Called (binding nxt') (endContainerIns parent nxt' oldVal) (Outs g' e')]"
            and "r = Returned (map_option ContainerEndFailed e')"
          with tr0 trc start g e True show ?thesis
            by (auto intro!: node_shape_seq_shape.closed)
        next
          assume "\<not> ?ce" and "w1 = w2" and "r = Returned None"
          with tr0 trc start g e True show ?thesis
            by (auto intro!: node_shape_seq_shape.opened)
        qed
      qed
    qed
  qed
qed


lemma shape_offset:
  "node_shape ce p tr r \<Longrightarrow> node_shape ce p tr r"
  "seq_shape ce info' tr r \<Longrightarrow> \<forall>info j. info' = info\<lparr>offset := j\<rparr> \<longrightarrow> seq_shape ce info tr r"
proof (induction rule: node_shape_seq_shape.inducts)
  case (seq_cons k info' tr1 tr2 r)
  show ?case
  proof (intro allI impI)
    fix info j
    assume e: "info' = info\<lparr>offset := j\<rparr>"
    with seq_cons have "node_shape ce (Some (info\<lparr>offset := k\<rparr>)) tr1 (Returned None)" by simp
    moreover from seq_cons e have "seq_shape ce info tr2 r" by blast
    ultimately show "seq_shape ce info (tr1 @ tr2) r" by (rule node_shape_seq_shape.seq_cons)
  qed
next
  case (seq_last k info' tr r)
  show ?case
  proof (intro allI impI)
    fix info j
    assume e: "info' = info\<lparr>offset := j\<rparr>"
    with seq_last have "node_shape ce (Some (info\<lparr>offset := k\<rparr>)) tr r" by simp
    then show "seq_shape ce info tr r" by (rule node_shape_seq_shape.seq_last)
  qed
qed (auto intro: node_shape_seq_shape.intros)

lemma seq_shape_offset: "seq_shape ce (info\<lparr>offset := j\<rparr>) tr r \<Longrightarrow> seq_shape ce info tr r"
  using shape_offset(2) by blast

lemma seq_shape_first:
  assumes "node_shape ce (Some (nxt\<lparr>offset := k\<rparr>)) tr1 (Returned None)"
    and "seq_shape ce (nxt\<lparr>offset := k\<rparr>) tr2 r"
  shows "seq_shape ce nxt (tr1 @ tr2) r"
  using assms(1) seq_shape_offset [OF assms(2)] by (rule node_shape_seq_shape.seq_cons)

lemma walk_index_shape_step:
  assumes run: "walk_index X h t nxt oldVal i w = (r, nxt', w1)"
    and IH1: "\<And>child r w1. int i < psize nxt \<Longrightarrow> Value_Index oldVal (int i) = Some child
        \<Longrightarrow> Traveller_traverse X h t (Some (nxt\<lparr>offset := int i\<rparr>)) child w = (r, w1)
        \<Longrightarrow> \<exists>tr. obs w1 = obs w @ tr \<and> node_shape ce (Some (nxt\<lparr>offset := int i\<rparr>)) tr r"
    and IH2: "\<And>child w' r nxt' w1. int i < psize nxt \<Longrightarrow> Value_Index oldVal (int i) = Some child
        \<Longrightarrow> Traveller_traverse X h t (Some (nxt\<lparr>offset := int i\<rparr>)) child w = (Returned None, w')
        \<Longrightarrow> walk_index X h t (nxt\<lparr>offset := int i\<rparr>) oldVal (i + 1) w' = (r, nxt', w1)
        \<Longrightarrow> \<exists>tr k. obs w1 = obs w' @ tr \<and> seq_shape ce (nxt\<lparr>offset := int i\<rparr>) tr r
              \<and> nxt' = nxt\<lparr>offset := int i\<rparr>\<lparr>offset := k\<rparr>"
  shows "\<exists>tr k. obs w1 = obs w @ tr \<and> seq_shape ce nxt tr r \<and> nxt' = nxt\<lparr>offset := k\<rparr>"
proof (cases "int i < psize nxt")
  case False
  with run have "r = Returned None" "nxt' = nxt" "w1 = w"
    by (subst (asm) walk_index.simps, simp)+
  then have "obs w1 = obs w @ [] \<and> seq_shape ce nxt [] r \<and> nxt' = nxt\<lparr>offset := offset nxt\<rparr>"
    by (simp add: node_shape_seq_shape.seq_nil)
  then show ?thesis by blast
next
  case True
  show ?thesis
  proof (cases "Value_Index oldVal (int i)")
    case None
    with run True have "r = Panicked ReflectPanic" "nxt' = nxt" "w1 = w"
      by (subst (asm) walk_index.simps, simp)+
    then have "obs w1 = obs w @ [] \<and> seq_shape ce nxt [] r \<and> nxt' = nxt\<lparr>offset := offset nxt\<rparr>"
      by (simp add: node_shape_seq_shape.seq_nil)
    then show ?thesis by blast
  next
    case (Some child)
    obtain rc w' where c: "Traveller_traverse X h t (Some (nxt\<lparr>offset := int i\<rparr>)) child w = (rc, w')"
      by (cases "Traveller_traverse X h t (Some (nxt\<lparr>offset := int i\<rparr>)) child w") auto
    from IH1 [OF True Some c] obtain tr1 where
      tr1: "obs w' = obs w @ tr1" "node_shape ce (Some (nxt\<lparr>offset := int i\<rparr>)) tr1 rc"
      by blast
    show ?thesis
    proof (cases "rc = Returned None")
      case False
      with run True Some c have "r = rc" "nxt' = nxt\<lparr>offset := int i\<rparr>" "w1 = w'"
        by (subst (asm) walk_index.simps, auto split: result.splits option.splits)+
      with tr1 have "obs w1 = obs w @ tr1 \<and> seq_shape ce nxt tr1 r \<and> nxt' = nxt\<lparr>offset := int i\<rparr>"
        by (auto intro: node_shape_seq_shape.seq_last)
      then show ?thesis by blast
    next
      case rcN: True
      with run True Some c
      have "walk_index X h t (nxt\<lparr>offset := int i\<rparr>) oldVal (i + 1) w' = (r, nxt', w1)"
        by (subst (asm) walk_index.simps) simp
      from IH2 [OF True Some c [unfolded rcN] this] obtain tr2 k where
        t2: "obs w1 = obs w' @ tr2" "seq_shape ce (nxt\<lparr>offset := int i\<rparr>) tr2 r"
          "nxt' = nxt\<lparr>offset := int i\<rparr>\<lparr>offset := k\<rparr>"
        by blast
      from seq_shape_first [OF tr1(2) [unfolded rcN] t2(2)] tr1(1) t2(1,3)
      have "obs w1 = obs w @ (tr1 @ tr2) \<and> seq_shape ce nxt (tr1 @ tr2) r
          \<and> nxt' = nxt\<lparr>offset := k\<rparr>"
        by simp
      then show ?thesis by blast
    qed
  qed
qed


lemma walk_fields_shape_step:
  assumes run: "walk_fields X h t nxt oldVal i w = (r, nxt', w1)"
    and IH0: "\<And>r nxt' w1. i < length (structFields nxt) \<Longrightarrow> Index (structFields nxt ! i) < 0
        \<Longrightarrow> walk_fields X h t nxt oldVal (i + 1) w = (r, nxt', w1)
        \<Longrightarrow> \<exists>tr k. obs w1 = obs w @ tr \<and> seq_shape ce nxt tr r \<and> nxt' = nxt\<lparr>offset := k\<rparr>"
    and IH1: "\<And>child r w1. i < length (structFields nxt) \<Longrightarrow> \<not> Index (structFields nxt ! i) < 0
        \<Longrightarrow> Field oldVal (Index (structFields nxt ! i)) = Some child
        \<Longrightarrow> Traveller_traverse X h t (Some (nxt\<lparr>offset := int i\<rparr>)) child w = (r, w1)
        \<Longrightarrow> \<exists>tr. obs w1 = obs w @ tr \<and> node_shape ce (Some (nxt\<lparr>offset := int i\<rparr>)) tr r"
    and IH2: "\<And>child w' r nxt' w1. i < length (structFields nxt)
        \<Longrightarrow> \<not> Index (structFields nxt ! i) < 0
        \<Longrightarrow> Field oldVal (Index (structFields nxt ! i)) = Some child
        \<Longrightarrow> Traveller_traverse X h t (Some (nxt\<lparr>offset := int i\<rparr>)) child w = (Returned None, w')
        \<Longrightarrow> walk_fields X h t (nxt\<lparr>offset := int i\<rparr>) oldVal (i + 1) w' = (r, nxt', w1)
        \<Longrightarrow> \<exists>tr k. obs w1 = obs w' @ tr \<and> seq_shape ce (nxt\<lparr>offset := int i\<rparr>) tr r
              \<and> nxt' = nxt\<lparr>offset := int i\<rparr>\<lparr>offset := k\<rparr>"
  shows "\<exists>tr k. obs w1 = obs w @ tr \<and> seq_shape ce nxt tr r \<and> nxt' = nxt\<lparr>offset := k\<rparr>"
proof (cases "i < length (structFields nxt)")
  case False
  with run have "r = Returned None" "nxt' = nxt" "w1 = w"
    by (subst (asm) walk_fields.simps, simp)+
  then have "obs w1 = obs w @ [] \<and> seq_shape ce nxt [] r \<and> nxt' = nxt\<lparr>offset := offset nxt\<rparr>"
    by (simp add: node_shape_seq_shape.seq_nil)
  then show ?thesis by blast
next
  case True
  show ?thesis
  proof (cases "Index (structFields nxt ! i) < 0")
    case skip: True
    with run True have "walk_fields X h t nxt oldVal (i + 1) w = (r, nxt', w1)"
      by (subst (asm) walk_fields.simps) simp
    from IH0 [OF True skip this] show ?thesis .
  next
    case keep: False
    show ?thesis
    proof (cases "Field oldVal (Index (structFields nxt ! i))")
      case None
      with run True keep have "r = Panicked ReflectPanic" "nxt' = nxt" "w1 = w"
        by (subst (asm) walk_fields.simps, simp)+
      then have "obs w1 = obs w @ [] \<and> seq_shape ce nxt [] r \<and> nxt' = nxt\<lparr>offset := offset nxt\<rparr>"
        by (simp add: node_shape_seq_shape.seq_nil)
      then show ?thesis by blast
    next
      case (Some child)
      obtain rc w' where c: "Traveller_traverse X h t (Some (nxt\<lparr>offset := int i\<rparr>)) child w = (rc, w')"
        by (cases "Traveller_traverse X h t (Some (nxt\<lparr>offset := int i\<rparr>)) child w") auto
      from IH1 [OF True keep Some c] obtain tr1 where
        tr1: "obs w' = obs w @ tr1" "node_shape ce (Some (nxt\<lparr>offset := int i\<rparr>)) tr1 rc"
        by blast
      show ?thesis
      proof (cases "rc = Returned None")
        case False
        with run True keep Some c have "r = rc" "nxt' = nxt\<lparr>offset := int i\<rparr>" "w1 = w'"
          by (subst (asm) walk_fields.simps, auto split: result.splits option.splits)+
        with tr1 have "obs w1 = obs w @ tr1 \<and> seq_shape ce nxt tr1 r \<and> nxt' = nxt\<lparr>offset := int i\<rparr>"
          by (auto intro: node_shape_seq_shape.seq_last)
        then show ?thesis by blast
      next
        case rcN: True
        with run True keep Some c
        have "walk_fields X h t (nxt\<lparr>offset := int i\<rparr>) oldVal (i + 1) w' = (r, nxt', w1)"
          by (subst (asm) walk_fields.simps) simp
        from IH2 [OF True keep Some c [unfolded rcN] this] obtain tr2 k where
          t2: "obs w1 = obs w' @ tr2" "seq_shape ce (nxt\<lparr>offset := int i\<rparr>) tr2 r"
            "nxt' = nxt\<lparr>offset := int i\<rparr>\<lparr>offset := k\<rparr>"
          by blast
        from seq_shape_first [OF tr1(2) [unfolded rcN] t2(2)] tr1(1) t2(1,3)
        have "obs w1 = obs w @ (tr1 @ tr2) \<and> seq_shape ce nxt (tr1 @ tr2) r
            \<and> nxt' = nxt\<lparr>offset := k\<rparr>"
          by simp
        then show ?thesis by blast
      qed
    qed
  qed
qed

lemma walk_map_shape_step:
  assumes run: "walk_map X h t nxt oldVal keys i w = (r, nxt', w1)"
    and IH1: "\<And>r w1. i < length keys
        \<Longrightarrow> Traveller_traverse X h t (Some (nxt\<lparr>offset := 2 * int i\<rparr>)) (keys ! i) w = (r, w1)
        \<Longrightarrow> \<exists>tr. obs w1 = obs w @ tr \<and> node_shape ce (Some (nxt\<lparr>offset := 2 * int i\<rparr>)) tr r"
    and IH2: "\<And>w' v r w1. i < length keys
        \<Longrightarrow> Traveller_traverse X h t (Some (nxt\<lparr>offset := 2 * int i\<rparr>)) (keys ! i) w = (Returned None, w')
        \<Longrightarrow> MapIndex oldVal (keys ! i) = Some v
        \<Longrightarrow> Traveller_traverse X h t (Some (nxt\<lparr>offset := 2 * int i + 1\<rparr>)) v w' = (r, w1)
        \<Longrightarrow> \<exists>tr. obs w1 = obs w' @ tr \<and> node_shape ce (Some (nxt\<lparr>offset := 2 * int i + 1\<rparr>)) tr r"
    and IH3: "\<And>w' v w'' r nxt' w1. i < length keys
        \<Longrightarrow> Traveller_traverse X h t (Some (nxt\<lparr>offset := 2 * int i\<rparr>)) (keys ! i) w = (Returned None, w')
        \<Longrightarrow> MapIndex oldVal (keys ! i) = Some v
        \<Longrightarrow> Traveller_traverse X h t (Some (nxt\<lparr>offset := 2 * int i + 1\<rparr>)) v w' = (Returned None, w'')
        \<Longrightarrow> walk_map X h t (nxt\<lparr>offset := 2 * int i + 1\<rparr>) oldVal keys (i + 1) w'' = (r, nxt', w1)
        \<Longrightarrow> \<exists>tr k. obs w1 = obs w'' @ tr \<and> seq_shape ce (nxt\<lparr>offset := 2 * int i + 1\<rparr>) tr r
              \<and> nxt' = nxt\<lparr>offset := 2 * int i + 1\<rparr>\<lparr>offset := k\<rparr>"
  shows "\<exists>tr k. obs w1 = obs w @ tr \<and> seq_shape ce nxt tr r \<and> nxt' = nxt\<lparr>offset := k\<rparr>"
proof (cases "i < length keys")
  case False
  with run have "r = Returned None" "nxt' = nxt" "w1 = w"
    by (subst (asm) walk_map.simps, simp)+
  then have "obs w1 = obs w @ [] \<and> seq_shape ce nxt [] r \<and> nxt' = nxt\<lparr>offset := offset nxt\<rparr>"
    by (simp add: node_shape_seq_shape.seq_nil)
  then show ?thesis by blast
next
  case True
  obtain rc w' where c: "Traveller_traverse X h t (Some (nxt\<lparr>offset := 2 * int i\<rparr>)) (keys ! i) w = (rc, w')"
    by (cases "Traveller_traverse X h t (Some (nxt\<lparr>offset := 2 * int i\<rparr>)) (keys ! i) w") auto
  from IH1 [OF True c] obtain tr1 where
    tr1: "obs w' = obs w @ tr1" "node_shape ce (Some (nxt\<lparr>offset := 2 * int i\<rparr>)) tr1 rc"
    by blast
  show ?thesis
  proof (cases "rc = Returned None")
    case False
    with run True c have "r = rc" "nxt' = nxt\<lparr>offset := 2 * int i\<rparr>" "w1 = w'"
      by (subst (asm) walk_map.simps, auto split: result.splits option.splits)+
    with tr1 have "obs w1 = obs w @ tr1 \<and> seq_shape ce nxt tr1 r \<and> nxt' = nxt\<lparr>offset := 2 * int i\<rparr>"
      by (auto intro: node_shape_seq_shape.seq_last)
    then show ?thesis by blast
  next
    case rcN: True
    note c' = c [unfolded rcN]
    show ?thesis
    proof (cases "MapIndex oldVal (keys ! i)")
      case None
      with run True c rcN have "r = Panicked ReflectPanic" "nxt' = nxt\<lparr>offset := 2 * int i\<rparr>" "w1 = w'"
        by (subst (asm) walk_map.simps, simp)+
      moreover from tr1 rcN have "seq_shape ce nxt (tr1 @ []) r"
        by (intro node_shape_seq_shape.seq_cons [where k = "2 * int i"] node_shape_seq_shape.seq_nil) simp
      ultimately have "obs w1 = obs w @ tr1 \<and> seq_shape ce nxt tr1 r
          \<and> nxt' = nxt\<lparr>offset := 2 * int i\<rparr>"
        using tr1 by simp
      then show ?thesis by blast
    next
      case (Some v)
      obtain rv w'' where cv: "Traveller_traverse X h t (Some (nxt\<lparr>offset := 2 * int i + 1\<rparr>)) v w' = (rv, w'')"
        by (cases "Traveller_traverse X h t (Some (nxt\<lparr>offset := 2 * int i + 1\<rparr>)) v w'") auto
      from IH2 [OF True c' Some cv] obtain tr2 where
        tr2: "obs w'' = obs w' @ tr2" "node_shape ce (Some (nxt\<lparr>offset := 2 * int i + 1\<rparr>)) tr2 rv"
        by blast
      show ?thesis
      proof (cases "rv = Returned None")
        case False
        with run True c rcN Some cv have "r = rv" "nxt' = nxt\<lparr>offset := 2 * int i + 1\<rparr>" "w1 = w''"
          by (subst (asm) walk_map.simps, auto split: result.splits option.splits)+
        moreover from tr2 \<open>r = rv\<close> have "seq_shape ce nxt tr2 r"
          by (auto intro: node_shape_seq_shape.seq_last)
        with tr1 rcN have "seq_shape ce nxt (tr1 @ tr2) r"
          by (auto intro: node_shape_seq_shape.seq_cons)
        ultimately have "obs w1 = obs w @ (tr1 @ tr2) \<and> seq_shape ce nxt (tr1 @ tr2) r
            \<and> nxt' = nxt\<lparr>offset := 2 * int i + 1\<rparr>"
          using tr1 tr2 by simp
        then show ?thesis by blast
      next
        case rvN: True
        with run True c rcN Some cv
        have "walk_map X h t (nxt\<lparr>offset := 2 * int i + 1\<rparr>) oldVal keys (i + 1) w'' = (r, nxt', w1)"
          by (subst (asm) walk_map.simps) simp
        from IH3 [OF True c' Some cv [unfolded rvN] this] obtain tr3 k where
          t3: "obs w1 = obs w'' @ tr3" "seq_shape ce (nxt\<lparr>offset := 2 * int i + 1\<rparr>) tr3 r"
            "nxt' = nxt\<lparr>offset := 2 * int i + 1\<rparr>\<lparr>offset := k\<rparr>"
          by blast
        from seq_shape_first [OF tr2(2) [unfolded rvN] t3(2)]
        have "seq_shape ce nxt (tr2 @ tr3) r" .
        with tr1(2) rcN have "seq_shape ce nxt (tr1 @ tr2 @ tr3) r"
          by (auto intro: node_shape_seq_shape.seq_cons)
        with t3(1,3) have "obs w1 = obs w @ (tr1 @ tr2 @ tr3) \<and> seq_shape ce nxt (tr1 @ tr2 @ tr3) r
            \<and> nxt' = nxt\<lparr>offset := k\<rparr>"
          using tr1 tr2 by simp
        then show ?thesis by blast
      qed
    qed
  qed
qed

lemma walk_children_shape_step:
  assumes run: "walk_children X h t nxt oldVal w = (r, nxt', w1)"
    and IH1: "\<And>r nxt' w1. Kind_of oldVal = KArray \<or> Kind_of oldVal = KSlice
        \<Longrightarrow> walk_index X h t nxt oldVal 0 w = (r, nxt', w1)
        \<Longrightarrow> \<exists>tr k. obs w1 = obs w @ tr \<and> seq_shape ce nxt tr r \<and> nxt' = nxt\<lparr>offset := k\<rparr>"
    and IH2: "\<And>keys r nxt' w1. Kind_of oldVal = KMap \<Longrightarrow> 0 < psize nxt
        \<Longrightarrow> MapKeys oldVal = Some keys \<Longrightarrow> 2 * int (length keys) = psize nxt
        \<Longrightarrow> walk_map X h t nxt oldVal keys 0 w = (r, nxt', w1)
        \<Longrightarrow> \<exists>tr k. obs w1 = obs w @ tr \<and> seq_shape ce nxt tr r \<and> nxt' = nxt\<lparr>offset := k\<rparr>"
    and IH3: "\<And>r nxt' w1. Kind_of oldVal = KStruct
        \<Longrightarrow> walk_fields X h t nxt oldVal 0 w = (r, nxt', w1)
        \<Longrightarrow> \<exists>tr k. obs w1 = obs w @ tr \<and> seq_shape ce nxt tr r \<and> nxt' = nxt\<lparr>offset := k\<rparr>"
    and IH4: "\<And>elem r w1. Kind_of oldVal = KPtr \<Longrightarrow> 0 < psize nxt \<Longrightarrow> Elem oldVal = Some elem
        \<Longrightarrow> Traveller_traverse X h t (Some (nxt\<lparr>offset := 0\<rparr>)) elem w = (r, w1)
        \<Longrightarrow> \<exists>tr. obs w1 = obs w @ tr \<and> node_shape ce (Some (nxt\<lparr>offset := 0\<rparr>)) tr r"
  shows "\<exists>tr k. obs w1 = obs w @ tr \<and> seq_shape ce nxt tr r \<and> nxt' = nxt\<lparr>offset := k\<rparr>"
proof -
  have quietly: ?thesis if "nxt' = nxt" "w1 = w"
  proof -
    from that have "obs w1 = obs w @ [] \<and> seq_shape ce nxt [] r \<and> nxt' = nxt\<lparr>offset := offset nxt\<rparr>"
      by (simp add: node_shape_seq_shape.seq_nil)
    then show ?thesis by blast
  qed
  consider (idx) "Kind_of oldVal = KArray \<or> Kind_of oldVal = KSlice"
    | (mp) "Kind_of oldVal = KMap" | (st) "Kind_of oldVal = KStruct" | (pt) "Kind_of oldVal = KPtr"
    | (other) "Kind_of oldVal \<notin> {KArray, KSlice, KMap, KStruct, KPtr}"
    by auto
  then show ?thesis
  proof cases
    case idx
    with run have "walk_index X h t nxt oldVal 0 w = (r, nxt', w1)"
      by (subst (asm) walk_children.simps) simp
    from IH1 [OF idx this] show ?thesis .
  next
    case mp
    show ?thesis
    proof (cases "0 < psize nxt")
      case False
      with run mp have "nxt' = nxt" "w1 = w" by (subst (asm) walk_children.simps, simp)+
      then show ?thesis by (rule quietly)
    next
      case True
      show ?thesis
      proof (cases "MapKeys oldVal")
        case None
        with run mp True have "nxt' = nxt" "w1 = w" by (subst (asm) walk_children.simps, simp)+
        then show ?thesis by (rule quietly)
      next
        case (Some keys)
        show ?thesis
        proof (cases "2 * int (length keys) = psize nxt")
          case False
          with run mp True Some have "nxt' = nxt" "w1 = w"
            by (subst (asm) walk_children.simps, simp)+
          then show ?thesis by (rule quietly)
        next
          case eq: True
          with run mp True Some have "walk_map X h t nxt oldVal keys 0 w = (r, nxt', w1)"
            by (subst (asm) walk_children.simps) simp
          from IH2 [OF mp True Some eq this] show ?thesis .
        qed
      qed
    qed
  next
    case st
    with run have "walk_fields X h t nxt oldVal 0 w = (r, nxt', w1)"
      by (subst (asm) walk_children.simps) simp
    from IH3 [OF st this] show ?thesis .
  next
    case pt
    show ?thesis
    proof (cases "0 < psize nxt")
      case False
      with run pt have "nxt' = nxt" "w1 = w" by (subst (asm) walk_children.simps, simp)+
      then show ?thesis by (rule quietly)
    next
      case True
      show ?thesis
      proof (cases "Elem oldVal")
        case None
        with run pt True have "nxt' = nxt" "w1 = w" by (subst (asm) walk_children.simps, simp)+
        then show ?thesis by (rule quietly)
      next
        case (Some elem)
        obtain rc w' where c: "Traveller_traverse X h t (Some (nxt\<lparr>offset := 0\<rparr>)) elem w = (rc, w')"
          by (cases "Traveller_traverse X h t (Some (nxt\<lparr>offset := 0\<rparr>)) elem w") auto
        from IH4 [OF pt True Some c] obtain tr where
          tr: "obs w' = obs w @ tr" "node_shape ce (Some (nxt\<lparr>offset := 0\<rparr>)) tr rc"
          by blast
        from run pt True Some c have "r = rc" "nxt' = nxt\<lparr>offset := 0\<rparr>" "w1 = w'"
          by (subst (asm) walk_children.simps, simp)+
        with tr have "obs w1 = obs w @ tr \<and> seq_shape ce nxt tr r \<and> nxt' = nxt\<lparr>offset := 0\<rparr>"
          by (auto intro: node_shape_seq_shape.seq_last)
        then show ?thesis by blast
      qed
    qed
  next
    case other
    with run have "nxt' = nxt" "w1 = w" by (subst (asm) walk_children.simps, simp)+
    then show ?thesis by (rule quietly)
  qed
qed


lemma traversal_shape:
  assumes "faithful obs X" and "quiet obs h"
  shows "Traveller_traverse X h t parent val w = (r, w1)
           \<Longrightarrow> \<exists>tr. obs w1 = obs w @ tr \<and> node_shape (conf_flag ContainerEnd h t) parent tr r"
    and "traverse_loop X h t parent val w = (r, w1)
           \<Longrightarrow> \<exists>tr. obs w1 = obs w @ tr \<and> node_shape (conf_flag ContainerEnd h t) parent tr r"
    and "walk_children X h t nxt val w = (r, nxt', w1)
           \<Longrightarrow> \<exists>tr k. obs w1 = obs w @ tr \<and> seq_shape (conf_flag ContainerEnd h t) nxt tr r
                 \<and> nxt' = nxt\<lparr>offset := k\<rparr>"
    and "walk_index X h t nxt val i w = (r, nxt', w1)
           \<Longrightarrow> \<exists>tr k. obs w1 = obs w @ tr \<and> seq_shape (conf_flag ContainerEnd h t) nxt tr r
                 \<and> nxt' = nxt\<lparr>offset := k\<rparr>"
    and "walk_map X h t nxt val keys i w = (r, nxt', w1)
           \<Longrightarrow> \<exists>tr k. obs w1 = obs w @ tr \<and> seq_shape (conf_flag ContainerEnd h t) nxt tr r
                 \<and> nxt' = nxt\<lparr>offset := k\<rparr>"
    and "walk_fields X h t nxt val i w = (r, nxt', w1)
           \<Longrightarrow> \<exists>tr k. obs w1 = obs w @ tr \<and> seq_shape (conf_flag ContainerEnd h t) nxt tr r
                 \<and> nxt' = nxt\<lparr>offset := k\<rparr>"
  using assms
proof (induction X h t parent val w and X h t parent val w and X h t nxt val w
         and X h t nxt val i w and X h t nxt val keys i w and X h t nxt val i w
       arbitrary: r w1 and r w1 and r nxt' w1 and r nxt' w1 and r nxt' w1 and r nxt' w1
       rule: Traveller_traverse_traverse_loop_walk_children_walk_index_walk_map_walk_fields.induct)
  case (1 X h t parent val w)
  show ?case
  proof (cases "IsValid val")
    case False
    with "1.prems"(1) have "w1 = w" by (simp add: Traveller_traverse.simps)
    then show ?thesis by (auto intro: node_shape_seq_shape.silent)
  next
    case True
    with "1.prems"(1) have "traverse_loop X h t parent val w = (r, w1)"
      by (simp add: Traveller_traverse.simps)
    with "1.IH" True "1.prems"(2,3) show ?thesis by simp
  qed
next
  case (2 X h t parent oldVal w)
  note f = "2.prems"(2) and q = "2.prems"(3)
  show ?case
  proof (rule traverse_loop_shape_step [OF f q "2.prems"(1)])
    fix goin nxt newVal w0 r w1
    assume call: "Traveller_call X h t parent oldVal w = (Returned (goin, True, nxt, newVal, None), w0)"
      and v: "IsValid newVal" and run: "traverse_loop X h t parent newVal w0 = (r, w1)"
    from v have "\<not> \<not> IsValid newVal" by simp
    from "2.IH"(1) [OF call [symmetric] refl refl refl refl refl refl TrueI this run f q]
    show "\<exists>tr. obs w1 = obs w0 @ tr \<and> node_shape (conf_flag ContainerEnd h t) parent tr r" .
  next
    fix info newVal w0 r nxt' w1
    assume call: "Traveller_call X h t parent oldVal w = (Returned (True, False, Some info, newVal, None), w0)"
      and run: "walk_children X h t info oldVal w0 = (r, nxt', w1)"
    have "\<not> False" "\<not> \<not> True" by simp_all
    from "2.IH"(2) [OF call [symmetric] refl refl refl refl refl refl this refl run f q]
    show "\<exists>tr k. obs w1 = obs w0 @ tr \<and> seq_shape (conf_flag ContainerEnd h t) info tr r
            \<and> nxt' = info\<lparr>offset := k\<rparr>" .
  qed
next
  case (3 X h t nxt oldVal w)
  note f = "3.prems"(2) and q = "3.prems"(3)
  show ?case
  proof (rule walk_children_shape_step [OF "3.prems"(1)])
    fix r nxt' w1
    assume k: "Kind_of oldVal = KArray \<or> Kind_of oldVal = KSlice"
      and run: "walk_index X h t nxt oldVal 0 w = (r, nxt', w1)"
    from "3.IH"(1) [OF k run f q]
    show "\<exists>tr k. obs w1 = obs w @ tr \<and> seq_shape (conf_flag ContainerEnd h t) nxt tr r \<and> nxt' = nxt\<lparr>offset := k\<rparr>" .
  next
    fix keys r nxt' w1
    assume k: "Kind_of oldVal = KMap" "0 < psize nxt" "MapKeys oldVal = Some keys"
        "2 * int (length keys) = psize nxt"
      and run: "walk_map X h t nxt oldVal keys 0 w = (r, nxt', w1)"
    from k have a: "\<not> (Kind_of oldVal = KArray \<or> Kind_of oldVal = KSlice)"
      and b: "\<not> 2 * int (length keys) \<noteq> psize nxt" by simp_all
    from "3.IH"(2) [OF a k(1,2,3) b run f q]
    show "\<exists>tr k. obs w1 = obs w @ tr \<and> seq_shape (conf_flag ContainerEnd h t) nxt tr r \<and> nxt' = nxt\<lparr>offset := k\<rparr>" .
  next
    fix r nxt' w1
    assume k: "Kind_of oldVal = KStruct"
      and run: "walk_fields X h t nxt oldVal 0 w = (r, nxt', w1)"
    from k have a: "\<not> (Kind_of oldVal = KArray \<or> Kind_of oldVal = KSlice)"
      and b: "Kind_of oldVal \<noteq> KMap" by simp_all
    from "3.IH"(3) [OF a b k run f q]
    show "\<exists>tr k. obs w1 = obs w @ tr \<and> seq_shape (conf_flag ContainerEnd h t) nxt tr r \<and> nxt' = nxt\<lparr>offset := k\<rparr>" .
  next
    fix elem r w1
    assume k: "Kind_of oldVal = KPtr" "0 < psize nxt" "Elem oldVal = Some elem"
      and run: "Traveller_traverse X h t (Some (nxt\<lparr>offset := 0\<rparr>)) elem w = (r, w1)"
    from k have a: "\<not> (Kind_of oldVal = KArray \<or> Kind_of oldVal = KSlice)"
      and b: "Kind_of oldVal \<noteq> KMap" and c: "Kind_of oldVal \<noteq> KStruct" by simp_all
    from "3.IH"(4) [OF a b c k run f q]
    show "\<exists>tr. obs w1 = obs w @ tr \<and> node_shape (conf_flag ContainerEnd h t) (Some (nxt\<lparr>offset := 0\<rparr>)) tr r" .
  qed
next
  case (4 X h t nxt oldVal i w)
  note f = "4.prems"(2) and q = "4.prems"(3)
  show ?case
  proof (rule walk_index_shape_step [OF "4.prems"(1)])
    fix child r w1
    assume k: "int i < psize nxt" "Value_Index oldVal (int i) = Some child"
      and run: "Traveller_traverse X h t (Some (nxt\<lparr>offset := int i\<rparr>)) child w = (r, w1)"
    from "4.IH"(1) [OF k run f q]
    show "\<exists>tr. obs w1 = obs w @ tr \<and> node_shape (conf_flag ContainerEnd h t) (Some (nxt\<lparr>offset := int i\<rparr>)) tr r" .
  next
    fix child w' r nxt' w1
    assume k: "int i < psize nxt" "Value_Index oldVal (int i) = Some child"
      and c: "Traveller_traverse X h t (Some (nxt\<lparr>offset := int i\<rparr>)) child w = (Returned None, w')"
      and run: "walk_index X h t (nxt\<lparr>offset := int i\<rparr>) oldVal (i + 1) w' = (r, nxt', w1)"
    from "4.IH"(2) [OF k c [symmetric] refl refl run f q]
    show "\<exists>tr k. obs w1 = obs w' @ tr \<and> seq_shape (conf_flag ContainerEnd h t) (nxt\<lparr>offset := int i\<rparr>) tr r
            \<and> nxt' = nxt\<lparr>offset := int i\<rparr>\<lparr>offset := k\<rparr>" .
  qed
next
  case (5 X h t nxt oldVal keys i w)
  note f = "5.prems"(2) and q = "5.prems"(3)
  show ?case
  proof (rule walk_map_shape_step [OF "5.prems"(1)])
    fix r w1
    assume k: "i < length keys"
      and run: "Traveller_traverse X h t (Some (nxt\<lparr>offset := 2 * int i\<rparr>)) (keys ! i) w = (r, w1)"
    from "5.IH"(1) [OF k run f q]
    show "\<exists>tr. obs w1 = obs w @ tr \<and> node_shape (conf_flag ContainerEnd h t) (Some (nxt\<lparr>offset := 2 * int i\<rparr>)) tr r" .
  next
    fix w' v r w1
    assume k: "i < length keys"
      and c: "Traveller_traverse X h t (Some (nxt\<lparr>offset := 2 * int i\<rparr>)) (keys ! i) w = (Returned None, w')"
      and m: "MapIndex oldVal (keys ! i) = Some v"
      and run: "Traveller_traverse X h t (Some (nxt\<lparr>offset := 2 * int i + 1\<rparr>)) v w' = (r, w1)"
    from "5.IH"(2) [OF k c [symmetric] refl refl m run f q]
    show "\<exists>tr. obs w1 = obs w' @ tr \<and> node_shape (conf_flag ContainerEnd h t) (Some (nxt\<lparr>offset := 2 * int i + 1\<rparr>)) tr r" .
  next
    fix w' v w'' r nxt' w1
    assume k: "i < length keys"
      and c: "Traveller_traverse X h t (Some (nxt\<lparr>offset := 2 * int i\<rparr>)) (keys ! i) w = (Returned None, w')"
      and m: "MapIndex oldVal (keys ! i) = Some v"
      and c2: "Traveller_traverse X h t (Some (nxt\<lparr>offset := 2 * int i + 1\<rparr>)) v w' = (Returned None, w'')"
      and run: "walk_map X h t (nxt\<lparr>offset := 2 * int i + 1\<rparr>) oldVal keys (i + 1) w'' = (r, nxt', w1)"
    from "5.IH"(3) [OF k c [symmetric] refl refl m c2 [symmetric] refl refl run f q]
    show "\<exists>tr k. obs w1 = obs w'' @ tr \<and> seq_shape (conf_flag ContainerEnd h t) (nxt\<lparr>offset := 2 * int i + 1\<rparr>) tr r
            \<and> nxt' = nxt\<lparr>offset := 2 * int i + 1\<rparr>\<lparr>offset := k\<rparr>" .
  qed
next
  case (6 X h t nxt oldVal i w)
  note f = "6.prems"(2) and q = "6.prems"(3)
  show ?case
  proof (rule walk_fields_shape_step [OF "6.prems"(1)])
    fix r nxt' w1
    assume k: "i < length (structFields nxt)" "Index (structFields nxt ! i) < 0"
      and run: "walk_fields X h t nxt oldVal (i + 1) w = (r, nxt', w1)"
    from "6.IH"(1) [OF k run f q]
    show "\<exists>tr k. obs w1 = obs w @ tr \<and> seq_shape (conf_flag ContainerEnd h t) nxt tr r \<and> nxt' = nxt\<lparr>offset := k\<rparr>" .
  next
    fix child r w1
    assume k: "i < length (structFields nxt)" "\<not> Index (structFields nxt ! i) < 0"
        "Field oldVal (Index (structFields nxt ! i)) = Some child"
      and run: "Traveller_traverse X h t (Some (nxt\<lparr>offset := int i\<rparr>)) child w = (r, w1)"
    from "6.IH"(2) [OF k run f q]
    show "\<exists>tr. obs w1 = obs w @ tr \<and> node_shape (conf_flag ContainerEnd h t) (Some (nxt\<lparr>offset := int i\<rparr>)) tr r" .
  next
    fix child w' r nxt' w1
    assume k: "i < length (structFields nxt)" "\<not> Index (structFields nxt ! i) < 0"
        "Field oldVal (Index (structFields nxt ! i)) = Some child"
      and c: "Traveller_traverse X h t (Some (nxt\<lparr>offset := int i\<rparr>)) child w = (Returned None, w')"
      and run: "walk_fields X h t (nxt\<lparr>offset := int i\<rparr>) oldVal (i + 1) w' = (r, nxt', w1)"
    from "6.IH"(3) [OF k c [symmetric] refl refl run f q]
    show "\<exists>tr k. obs w1 = obs w' @ tr \<and> seq_shape (conf_flag ContainerEnd h t) (nxt\<lparr>offset := int i\<rparr>) tr r
            \<and> nxt' = nxt\<lparr>offset := int i\<rparr>\<lparr>offset := k\<rparr>" .
  qed
qed


lemma same_frame_simps [simp]:
  "same_frame a a"
  "same_frame (a\<lparr>offset := k\<rparr>) b = same_frame a b"
  "same_frame a (b\<lparr>offset := k\<rparr>) = same_frame a b"
  by (simp_all add: same_frame_def)



lemma reported_None: "reported ev = None \<longleftrightarrow> ev_err ev = None"
  by (cases ev rule: reported.cases) simp_all

lemma last_fails_not_success: "last_fails tr (Returned None) \<Longrightarrow> False"
proof -
  assume "last_fails tr (Returned None)"
  then obtain ev where "ev_err ev \<noteq> None" "reported ev = None"
    unfolding last_fails_def by (metis result.inject(2))
  then show False by (simp add: reported_None)
qed

lemma clean_append: "clean (a @ b) \<longleftrightarrow> clean a \<and> clean b"
  by (auto simp: clean_def)

lemma last_fails_prepend:
  assumes "clean tr1" and "last_fails tr2 r"
  shows "last_fails (tr1 @ tr2) r"
proof -
  from assms(2) obtain tr3 ev where
    e: "tr2 = tr3 @ [ev]" "clean tr3" "ev_err ev \<noteq> None" "r = Returned (reported ev)"
    unfolding last_fails_def by blast
  from e(1) have "tr1 @ tr2 = (tr1 @ tr3) @ [ev]" by simp
  moreover from assms(1) e(2) have "clean (tr1 @ tr3)" by (simp add: clean_append)
  ultimately show ?thesis unfolding last_fails_def using e(3,4) by blast
qed

lemma shape_errors:
  "node_shape ce p tr r \<Longrightarrow> clean tr \<or> last_fails tr r"
  "seq_shape ce info tr r \<Longrightarrow> clean tr \<or> last_fails tr r"
proof (induction rule: node_shape_seq_shape.inducts)
  case (leaf p m v g e)
  show ?case
  proof (cases e)
    case None
    then show ?thesis by (simp add: clean_def)
  next
    case (Some x)
    then have "last_fails [Called m (callIns p v) (Outs g e)] (Returned e)"
      unfolding last_fails_def by (intro exI [of _ "[]"] exI [of _ "Called m (callIns p v) (Outs g e)"]) (simp add: clean_def)
    then show ?thesis by simp
  qed
next
  case (stopped e g p m info v)
  show ?case
  proof (cases e)
    case None
    then show ?thesis by (simp add: clean_def)
  next
    case (Some x)
    then have "last_fails [Called m (startContainerIns p info v) (Outs g e)] (Returned e)"
      unfolding last_fails_def
      by (intro exI [of _ "[]"] exI [of _ "Called m (startContainerIns p info v) (Outs g e)"]) (simp add: clean_def)
    then show ?thesis by simp
  qed
next
  case (aborted info trc rc p v)
  have c: "clean [Called (binding info) (startContainerIns p info v) (Outs True None)]"
    by (simp add: clean_def)
  from aborted have "clean trc \<or> last_fails trc rc" by simp
  then show ?case
  proof
    assume "clean trc"
    with c show ?thesis by (simp add: clean_def)
  next
    assume "last_fails trc rc"
    from last_fails_prepend [OF c this] show ?thesis by simp
  qed
next
  case (opened info trc p v)
  with last_fails_not_success have "clean trc" by blast
  then show ?case by (simp add: clean_def)
next
  case (closed info trc p v k g e)
  with last_fails_not_success have t: "clean trc" by blast
  then have c: "clean (Called (binding info) (startContainerIns p info v) (Outs True None) # trc)"
    by (simp add: clean_def)
  show ?case
  proof (cases e)
    case None
    with c show ?thesis by (simp add: clean_def)
  next
    case (Some x)
    have "last_fails ((Called (binding info) (startContainerIns p info v) (Outs True None) # trc)
         @ [Called (binding info) (endContainerIns p (info\<lparr>offset := k\<rparr>) v) (Outs g e)])
         (Returned (map_option ContainerEndFailed e))"
      using last_fails_prepend [OF c, of "[Called (binding info) (endContainerIns p (info\<lparr>offset := k\<rparr>) v) (Outs g e)]"
          "Returned (map_option ContainerEndFailed e)"] Some
      unfolding last_fails_def [of "[_]"] by (simp add: clean_def)
    then show ?thesis by simp
  qed
next
  case (seq_cons k info tr1 tr2 r)
  with last_fails_not_success have c: "clean tr1" by blast
  from seq_cons have "clean tr2 \<or> last_fails tr2 r" by simp
  then show ?case
  proof
    assume "clean tr2"
    with c show ?thesis by (simp add: clean_append)
  next
    assume "last_fails tr2 r"
    from last_fails_prepend [OF c this] show ?thesis by simp
  qed
qed (simp_all add: clean_def)

lemma conf_flag_logged:
  "conf_flag ContainerEnd (logged_store h) t = conf_flag ContainerEnd h t"
  by (simp add: conf_flag_def logged_store_def logged_conf_def split: option.splits)

lemma Traverse_shape:
  assumes "Traverse (logged X) (logged_store h) t obj (w, tr0) = (r, (w', tr'))"
  shows "\<exists>tr. tr' = tr0 @ tr \<and> node_shape (conf_flag ContainerEnd h t) None tr r"
proof (cases "IsValid (ValueOf obj)")
  case False
  with assms have "tr' = tr0 @ []" by (simp add: Traverse_def)
  then show ?thesis using node_shape_seq_shape.silent by blast
next
  case True
  with assms have "Traveller_traverse (logged X) (logged_store h) t None (ValueOf obj) (w, tr0)
      = (r, (w', tr'))"
    by (simp add: Traverse_def)
  from traversal_shape(1) [OF faithful_logged quiet_logged this] show ?thesis
    by (simp add: conf_flag_logged)
qed


section \<open>Errors of callbacks\<close>

text \<open>
  C4, as the code has it. An error returned by a callback ends the traversal at once: the
  failing invocation is the last entry of the log. The caller of \<^verbatim>\<open>Traverse\<close> gets that
  very error when the callback was invoked as a prefix shortcut, a type or kind binding,
  a container start or a suffix shortcut; when it was invoked as a container end, the
  caller gets a new error that wraps it ("call container end failed: ...").
\<close>

theorem callback_error_aborts:
  assumes "Traverse (logged X) (logged_store h) t obj (w, []) = (r, (w', tr))"
    and "tr = tr1 @ Called m ins (Outs g (Some e)) # tr2"
  shows "tr2 = [] \<and> r = Returned (reported (Called m ins (Outs g (Some e))))"
proof -
  let ?ev = "Called m ins (Outs g (Some e))"
  from Traverse_shape [OF assms(1)] obtain ce where "node_shape ce None tr r" by auto
  from shape_errors(1) [OF this] have "clean tr \<or> last_fails tr r" .
  moreover from assms(2) have "\<not> clean tr" by (auto simp: clean_def)
  ultimately obtain tr3 ev where
    l: "tr = tr3 @ [ev]" "clean tr3" "r = Returned (reported ev)"
    unfolding last_fails_def by blast
  have "tr2 = []"
  proof (rule ccontr)
    assume "tr2 \<noteq> []"
    then have "butlast (tr1 @ ?ev # tr2) = tr1 @ ?ev # butlast tr2"
      by (simp add: butlast_append)
    with assms(2) l(1) have "tr3 = tr1 @ ?ev # butlast tr2" by (metis butlast_snoc)
    with l(2) show False by (simp add: clean_def)
  qed
  with assms(2) l(1) have "ev = ?ev" by simp
  with l(3) \<open>tr2 = []\<close> show ?thesis by simp
qed

theorem callback_error_aborts_witness:
  "fst failing_int_run = Returned (reported (last (snd (snd failing_int_run))))
   \<and> reported (last (snd (snd failing_int_run))) = Some (AdapterError ''boom'')"
proof -
  obtain r w' tr where run: "Traverse (logged (demo fail_at_int))
       (logged_store (demo_store (demo_conf True True True))) parser1_engine
       (Some (PtrV ''*Inner0'' (Some Inner0))) ((), []) = (r, (w', tr))"
    by (metis prod.collapse)
  then have fr: "fst failing_int_run = r" and tr: "snd (snd failing_int_run) = tr"
    by (simp_all add: failing_int_run_def st1_def)
  have "snd (snd failing_int_run) \<noteq> []"
      "ev_err (last (snd (snd failing_int_run))) = Some (AdapterError ''boom'')"
      "reported (last (snd (snd failing_int_run))) = Some (AdapterError ''boom'')"
    by code_simp+
  then have ne: "tr \<noteq> []" and e: "ev_err (last tr) = Some (AdapterError ''boom'')"
    and rep: "reported (last tr) = Some (AdapterError ''boom'')" by (simp_all add: tr)
  from e obtain m ins g where l: "last tr = Called m ins (Outs g (Some (AdapterError ''boom'')))"
    by (cases "last tr" rule: ev_err.cases) auto
  with ne have "tr = butlast tr @ Called m ins (Outs g (Some (AdapterError ''boom''))) # []"
    by (metis append_butlast_last_id)
  from callback_error_aborts [OF run this] l
  have "r = Returned (reported (last tr))" by simp
  with rep show ?thesis by (simp add: fr tr)
qed

text \<open>
  C4 as stated fails for the container end: a container-end callback returns the error
  \<open>AdapterError ''boom''\<close> (the last entry of the log), and \<^verbatim>\<open>Traverse\<close> returns another error.
\<close>

theorem container_end_error_is_wrapped:
  "ev_err (last (snd (snd (Traverse (logged (demo fail_at_end)) st1 parser1_engine
        (Some (PtrV ''*int'' None)) ((), []))))) = Some (AdapterError ''boom'')
   \<and> fst (Traverse (logged (demo fail_at_end)) st1 parser1_engine
        (Some (PtrV ''*int'' None)) ((), []))
       = Returned (Some (ContainerEndFailed (AdapterError ''boom'')))
   \<and> fst (Traverse (logged (demo fail_at_end)) st1 parser1_engine
        (Some (PtrV ''*int'' None)) ((), []))
       \<noteq> Returned (Some (AdapterError ''boom''))"
  by code_simp


section \<open>The engine and its configuration\<close>

text \<open>
  A traversal reads the store only in the engine's own cell, and reads of the engine only
  its binding tables.
\<close>

lemma conf_flag_cong: "agree h1 t1 h2 t2 \<Longrightarrow> conf_flag F h1 t1 = conf_flag F h2 t2"
  by (auto simp: agree_def engine_conf_def conf_flag_def split: option.splits)

lemma structProperties_cong:
  assumes "agree h1 t1 h2 t2"
  shows "Traveller_structProperties h1 t1 val w = Traveller_structProperties h2 t2 val w"
proof -
  from assms have "(case conf t1 of None \<Rightarrow> None | Some a \<Rightarrow> Propertier (cells h1 a))
      = (case conf t2 of None \<Rightarrow> None | Some a \<Rightarrow> Propertier (cells h2 a))"
    by (auto simp: agree_def engine_conf_def split: option.splits)
  then show ?thesis by (simp add: Traveller_structProperties_def)
qed

lemma container_size_cong:
  assumes "agree h1 t1 h2 t2"
  shows "container_size h1 t1 kind val w = container_size h2 t2 kind val w"
  unfolding container_size_def structProperties_cong [OF assms] by (rule refl)

lemma call_shortcut_cong:
  assumes "agree h1 t1 h2 t2"
  shows "call_shortcut X t1 parent val itype w = call_shortcut X t2 parent val itype w"
proof -
  from assms have "shortcuts t1 = shortcuts t2" by (simp add: agree_def)
  then show ?thesis by (simp add: call_shortcut_def)
qed

lemma call_item_cong:
  assumes "agree h1 t1 h2 t2"
  shows "call_item X h1 t1 parent val item w = call_item X h2 t2 parent val item w"
proof -
  from assms have e: "typeMethods t1 = typeMethods t2" "kindMethods t1 = kindMethods t2"
    by (simp_all add: agree_def)
  show ?thesis unfolding call_item_def container_size_cong [OF assms] e by (rule refl)
qed

lemma Traveller_call_cong:
  assumes "agree h1 t1 h2 t2"
  shows "Traveller_call X h1 t1 parent val w = Traveller_call X h2 t2 parent val w"
proof -
  from assms have e: "prefixes t1 = prefixes t2" "suffixes t1 = suffixes t2"
      "typeOrder t1 = typeOrder t2"
    by (simp_all add: agree_def)
  show ?thesis
    unfolding Traveller_call_def call_item_cong [OF assms] call_shortcut_cong [OF assms]
      conf_flag_cong [OF assms] e
    by (rule refl)
qed

lemma container_end_cong:
  assumes "agree h1 t1 h2 t2"
  shows "container_end X h1 t1 parent nxt val w = container_end X h2 t2 parent nxt val w"
  unfolding container_end_def conf_flag_cong [OF assms] by (rule refl)

lemma traversal_store_cong:
  "agree h t h2 t2
     \<Longrightarrow> Traveller_traverse X h t parent val w = Traveller_traverse X h2 t2 parent val w"
  "agree h t h2 t2
     \<Longrightarrow> traverse_loop X h t parent val w = traverse_loop X h2 t2 parent val w"
  "agree h t h2 t2
     \<Longrightarrow> walk_children X h t nxt val w = walk_children X h2 t2 nxt val w"
  "agree h t h2 t2
     \<Longrightarrow> walk_index X h t nxt val i w = walk_index X h2 t2 nxt val i w"
  "agree h t h2 t2
     \<Longrightarrow> walk_map X h t nxt val keys i w = walk_map X h2 t2 nxt val keys i w"
  "agree h t h2 t2
     \<Longrightarrow> walk_fields X h t nxt val i w = walk_fields X h2 t2 nxt val i w"
proof (induction X h t parent val w and X h t parent val w and X h t nxt val w
         and X h t nxt val i w and X h t nxt val keys i w and X h t nxt val i w
       rule: Traveller_traverse_traverse_loop_walk_children_walk_index_walk_map_walk_fields.induct)
  case (1 X h t parent val w)
  then show ?case by (simp add: Traveller_traverse.simps)
next
  case (2 X h t parent oldVal w)
  note eq = "2.prems"
  obtain rc w0 where c: "Traveller_call X h t parent oldVal w = (rc, w0)"
    by (cases "Traveller_call X h t parent oldVal w") auto
  with Traveller_call_cong [OF eq, of X parent oldVal w]
  have c2: "Traveller_call X h2 t2 parent oldVal w = (rc, w0)" by simp
  have loop: "traverse_loop X h t parent newVal w0 = traverse_loop X h2 t2 parent newVal w0"
    if "rc = Returned (goin, True, nx, newVal, None)" "IsValid newVal" for goin nx newVal
  proof -
    from that have "\<not> \<not> IsValid newVal" by simp
    from "2.IH"(1) [OF c [unfolded that(1), symmetric] refl refl refl refl refl refl TrueI this eq]
    show ?thesis .
  qed
  have kids: "walk_children X h t nxt oldVal w0 = walk_children X h2 t2 nxt oldVal w0"
    if "rc = Returned (True, False, Some nxt, newVal, None)" for nxt newVal
  proof -
    have "\<not> False" "\<not> \<not> True" by simp_all
    from "2.IH"(2) [OF c [unfolded that, symmetric] refl refl refl refl refl refl this refl eq]
    show ?thesis .
  qed
  show ?case
  proof (cases rc)
    case (Panicked p)
    with c c2 show ?thesis
      by (subst traverse_loop.simps [of X h], subst traverse_loop.simps [of X h2]) simp
  next
    case (Returned x)
    obtain goin reEnter nx newVal err where x: "x = (goin, reEnter, nx, newVal, err)"
      by (cases x) auto
    show ?thesis
    proof (cases "err = None \<and> reEnter \<and> IsValid newVal")
      case True
      with Returned x have "rc = Returned (goin, True, nx, newVal, None)" by simp
      from loop [OF this] True c c2 Returned x show ?thesis
        by (subst traverse_loop.simps [of X h], subst traverse_loop.simps [of X h2]) simp
    next
      case nl: False
      show ?thesis
      proof (cases "err = None \<and> \<not> reEnter \<and> goin \<and> nx \<noteq> None")
        case True
        then obtain nxt where "nx = Some nxt" by auto
        with True Returned x have "rc = Returned (True, False, Some nxt, newVal, None)" by simp
        from kids [OF this] True c c2 Returned x \<open>nx = Some nxt\<close> show ?thesis
          by (subst traverse_loop.simps [of X h], subst traverse_loop.simps [of X h2])
             (simp add: container_end_cong [OF eq] split: prod.splits result.splits option.splits)
      next
        case False
        with nl c c2 Returned x show ?thesis
          by (subst traverse_loop.simps [of X h], subst traverse_loop.simps [of X h2])
             (auto split: option.splits)
      qed
    qed
  qed
next
  case (3 X h t nxt oldVal w)
  note eq = "3.prems"
  consider (idx) "Kind_of oldVal = KArray \<or> Kind_of oldVal = KSlice"
    | (mp) "Kind_of oldVal = KMap" | (st) "Kind_of oldVal = KStruct" | (pt) "Kind_of oldVal = KPtr"
    | (other) "Kind_of oldVal \<notin> {KArray, KSlice, KMap, KStruct, KPtr}"
    by auto
  then show ?case
  proof cases
    case idx
    from "3.IH"(1) [OF idx eq] idx show ?thesis
      by (subst walk_children.simps [of X h], subst walk_children.simps [of X h2]) simp
  next
    case mp
    have "walk_map X h t nxt oldVal keys 0 w = walk_map X h2 t2 nxt oldVal keys 0 w"
      if "0 < psize nxt" "MapKeys oldVal = Some keys" "2 * int (length keys) = psize nxt" for keys
    proof -
      from mp that have a: "\<not> (Kind_of oldVal = KArray \<or> Kind_of oldVal = KSlice)"
        and b: "\<not> 2 * int (length keys) \<noteq> psize nxt" by simp_all
      from "3.IH"(2) [OF a mp that(1,2) b eq] show ?thesis .
    qed
    with mp show ?thesis
      by (subst walk_children.simps [of X h], subst walk_children.simps [of X h2]) (simp split: option.splits)
  next
    case st
    then have a: "\<not> (Kind_of oldVal = KArray \<or> Kind_of oldVal = KSlice)"
      and b: "Kind_of oldVal \<noteq> KMap" by simp_all
    from "3.IH"(3) [OF a b st eq] st show ?thesis
      by (subst walk_children.simps [of X h], subst walk_children.simps [of X h2]) simp
  next
    case pt
    have "Traveller_traverse X h t (Some (nxt\<lparr>offset := 0\<rparr>)) elem w
        = Traveller_traverse X h2 t2 (Some (nxt\<lparr>offset := 0\<rparr>)) elem w"
      if "0 < psize nxt" "Elem oldVal = Some elem" for elem
    proof -
      from pt have a: "\<not> (Kind_of oldVal = KArray \<or> Kind_of oldVal = KSlice)"
        and b: "Kind_of oldVal \<noteq> KMap" and c: "Kind_of oldVal \<noteq> KStruct" by simp_all
      from "3.IH"(4) [OF a b c pt that eq] show ?thesis .
    qed
    with pt show ?thesis
      by (subst walk_children.simps [of X h], subst walk_children.simps [of X h2]) (simp split: option.splits)
  next
    case other
    then show ?thesis
      by (subst walk_children.simps [of X h], subst walk_children.simps [of X h2]) simp
  qed
next
  case (4 X h t nxt oldVal i w)
  note eq = "4.prems"
  show ?case
  proof (cases "int i < psize nxt")
    case False
    then show ?thesis
      by (subst walk_index.simps [of X h], subst walk_index.simps [of X h2]) simp
  next
    case True
    show ?thesis
    proof (cases "Value_Index oldVal (int i)")
      case None
      with True show ?thesis
        by (subst walk_index.simps [of X h], subst walk_index.simps [of X h2]) simp
    next
      case (Some c)
      obtain rc w' where r: "Traveller_traverse X h t (Some (nxt\<lparr>offset := int i\<rparr>)) c w = (rc, w')"
        by (cases "Traveller_traverse X h t (Some (nxt\<lparr>offset := int i\<rparr>)) c w") auto
      with "4.IH"(1) [OF True Some eq]
      have r2: "Traveller_traverse X h2 t2 (Some (nxt\<lparr>offset := int i\<rparr>)) c w = (rc, w')" by simp
      show ?thesis
      proof (cases "rc = Returned None")
        case False
        with True Some r r2 show ?thesis
          by (subst walk_index.simps [of X h], subst walk_index.simps [of X h2])
             (simp split: result.splits option.splits)
      next
        case rn: True
        from "4.IH"(2) [OF True Some r [unfolded rn, symmetric] refl refl eq]
        have "walk_index X h t (nxt\<lparr>offset := int i\<rparr>) oldVal (i + 1) w'
            = walk_index X h2 t2 (nxt\<lparr>offset := int i\<rparr>) oldVal (i + 1) w'" .
        with True Some r r2 rn show ?thesis
          by (subst walk_index.simps [of X h], subst walk_index.simps [of X h2]) simp
      qed
    qed
  qed
next
  case (5 X h t nxt oldVal keys i w)
  note eq = "5.prems"
  show ?case
  proof (cases "i < length keys")
    case False
    then show ?thesis
      by (subst walk_map.simps [of X h], subst walk_map.simps [of X h2]) simp
  next
    case True
    obtain rc w' where r: "Traveller_traverse X h t (Some (nxt\<lparr>offset := 2 * int i\<rparr>)) (keys ! i) w = (rc, w')"
      by (cases "Traveller_traverse X h t (Some (nxt\<lparr>offset := 2 * int i\<rparr>)) (keys ! i) w") auto
    with "5.IH"(1) [OF True eq]
    have r2: "Traveller_traverse X h2 t2 (Some (nxt\<lparr>offset := 2 * int i\<rparr>)) (keys ! i) w = (rc, w')"
      by simp
    show ?thesis
    proof (cases "rc = Returned None")
      case False
      with True r r2 show ?thesis
        by (subst walk_map.simps [of X h], subst walk_map.simps [of X h2])
           (simp split: result.splits option.splits)
    next
      case rn: True
      note r' = r [unfolded rn]
      show ?thesis
      proof (cases "MapIndex oldVal (keys ! i)")
        case None
        with True r r2 rn show ?thesis
          by (subst walk_map.simps [of X h], subst walk_map.simps [of X h2]) simp
      next
        case (Some v)
        obtain rv w'' where v: "Traveller_traverse X h t (Some (nxt\<lparr>offset := 2 * int i + 1\<rparr>)) v w' = (rv, w'')"
          by (cases "Traveller_traverse X h t (Some (nxt\<lparr>offset := 2 * int i + 1\<rparr>)) v w'") auto
        with "5.IH"(2) [OF True r' [symmetric] refl refl Some eq]
        have v2: "Traveller_traverse X h2 t2 (Some (nxt\<lparr>offset := 2 * int i + 1\<rparr>)) v w' = (rv, w'')"
          by simp
        show ?thesis
        proof (cases "rv = Returned None")
          case False
          with True r r2 rn Some v v2 show ?thesis
            by (subst walk_map.simps [of X h], subst walk_map.simps [of X h2])
               (simp split: result.splits option.splits)
        next
          case vn: True
          from "5.IH"(3) [OF True r' [symmetric] refl refl Some v [unfolded vn, symmetric] refl refl eq]
          have "walk_map X h t (nxt\<lparr>offset := 2 * int i + 1\<rparr>) oldVal keys (i + 1) w''
              = walk_map X h2 t2 (nxt\<lparr>offset := 2 * int i + 1\<rparr>) oldVal keys (i + 1) w''" .
          with True r r2 rn Some v v2 vn show ?thesis
            by (subst walk_map.simps [of X h], subst walk_map.simps [of X h2]) simp
        qed
      qed
    qed
  qed
next
  case (6 X h t nxt oldVal i w)
  note eq = "6.prems"
  show ?case
  proof (cases "i < length (structFields nxt)")
    case False
    then show ?thesis
      by (subst walk_fields.simps [of X h], subst walk_fields.simps [of X h2]) simp
  next
    case True
    show ?thesis
    proof (cases "Index (structFields nxt ! i) < 0")
      case skip: True
      from "6.IH"(1) [OF True skip eq] True skip show ?thesis
        by (subst walk_fields.simps [of X h], subst walk_fields.simps [of X h2]) simp
    next
      case keep: False
      show ?thesis
      proof (cases "Field oldVal (Index (structFields nxt ! i))")
        case None
        with True keep show ?thesis
          by (subst walk_fields.simps [of X h], subst walk_fields.simps [of X h2]) simp
      next
        case (Some c)
        obtain rc w' where r: "Traveller_traverse X h t (Some (nxt\<lparr>offset := int i\<rparr>)) c w = (rc, w')"
          by (cases "Traveller_traverse X h t (Some (nxt\<lparr>offset := int i\<rparr>)) c w") auto
        with "6.IH"(2) [OF True keep Some eq]
        have r2: "Traveller_traverse X h2 t2 (Some (nxt\<lparr>offset := int i\<rparr>)) c w = (rc, w')" by simp
        show ?thesis
        proof (cases "rc = Returned None")
          case False
          with True keep Some r r2 show ?thesis
            by (subst walk_fields.simps [of X h], subst walk_fields.simps [of X h2])
               (simp split: result.splits option.splits)
        next
          case rn: True
          from "6.IH"(3) [OF True keep Some r [unfolded rn, symmetric] refl refl eq]
          have "walk_fields X h t (nxt\<lparr>offset := int i\<rparr>) oldVal (i + 1) w'
              = walk_fields X h2 t2 (nxt\<lparr>offset := int i\<rparr>) oldVal (i + 1) w'" .
          with True keep Some r r2 rn show ?thesis
            by (subst walk_fields.simps [of X h], subst walk_fields.simps [of X h2]) simp
        qed
      qed
    qed
  qed
qed


lemma NewTraveller_conf:
  assumes "NewTraveller X h adapter_opt config = (Returned (Inr t), h')"
  shows "(conf t = None \<and> h' = h \<and> (\<forall>a rest. config \<noteq> Some a # rest))
       \<or> (\<exists>a rest. config = Some a # rest \<and> conf t = Some (top h)
             \<and> h' = h\<lparr>cells := (cells h)(top h := cells h a), top := Suc (top h)\<rparr>)"
proof -
  from assms obtain methods r where m: "adapter_opt = Some methods"
      and b: "bind_methods X methods 0 empty_registry = Returned (Inr r)"
      and ne: "\<not> (length (reg_items r) = 0 \<and> length (reg_shortcuts r) = 0)"
    by (auto simp: NewTraveller_def split: option.splits result.splits sum.splits if_splits)
  show ?thesis
  proof (cases "\<exists>a rest. config = Some a # rest")
    case True
    then obtain a rest where c: "config = Some a # rest" by blast
    with assms m b ne show ?thesis by (auto simp: NewTraveller_def Clone_def)
  next
    case False
    then have "(case config of Some a # _ \<Rightarrow> (case Clone h a of (a', h') \<Rightarrow> (Some a', h'))
                | _ \<Rightarrow> (None, h)) = (None, h)"
      by (auto split: list.splits option.splits)
    with assms m b ne False show ?thesis by (auto simp: NewTraveller_def)
  qed
qed

text \<open>
  C10. \<^verbatim>\<open>NewTraveller\<close> keeps a copy of the supplied configuration in a cell of its own.
  Whatever is written afterwards to the cells that existed before the construction (the
  caller's configuration is one of them), every traversal by the engine is the same: the
  same result and the same effect on the adapter. The engine's configuration stays the one
  the caller supplied at construction.
\<close>

theorem engine_configuration_is_private:
  assumes "NewTraveller X h adapter_opt config = (Returned (Inr t), h')"
    and "\<forall>a. top h \<le> a \<longrightarrow> cells h'' a = cells h' a"
  shows "Traverse X h'' t obj w = Traverse X h' t obj w
       \<and> (\<forall>a rest. config = Some a # rest \<longrightarrow> engine_conf h'' t = Some (cells h a))"
proof -
  from NewTraveller_conf [OF assms(1)] assms(2)
  have eq: "engine_conf h'' t = engine_conf h' t"
    and cl: "\<forall>a rest. config = Some a # rest \<longrightarrow> engine_conf h'' t = Some (cells h a)"
    by (auto simp: engine_conf_def)
  from eq have "agree h'' t h' t" by (simp add: agree_def)
  then have "Traveller_traverse X h'' t None (ValueOf obj) w
      = Traveller_traverse X h' t None (ValueOf obj) w"
    by (rule traversal_store_cong(1))
  then have "Traverse X h'' t obj w = Traverse X h' t obj w"
    by (simp add: Traverse_def Let_def)
  with cl show ?thesis by simp
qed

theorem engine_configuration_is_private_witness:
  "Traverse (logged (demo descend_containers)) mutated_store parser5_engine
       (Some (PtrV ''*Inner0'' (Some Inner0))) ((), [])
     = Traverse (logged (demo descend_containers)) engines_store parser5_engine
       (Some (PtrV ''*Inner0'' (Some Inner0))) ((), [])
   \<and> engine_conf mutated_store parser5_engine = Some (cells callers_store 0)
   \<and> cells mutated_store 0 \<noteq> cells callers_store 0"
proof -
  have built: "NewTraveller (logged (demo descend_containers)) callers_store (Some parser5) [Some 0]
      = (Returned (Inr parser5_engine), engines_store)"
    by (simp add: NewTraveller_def bind_methods.simps parser5_def a_method_def logged_def demo_def
        demo_Which_def empty_registry_def Clone_def callers_store_def engines_store_def
        logged_store_def demo_store_def parser5_engine_def)
  have agree: "\<forall>a. top callers_store \<le> a \<longrightarrow> cells mutated_store a = cells engines_store a"
    by (simp add: mutated_store_def callers_store_def logged_store_def demo_store_def)
  have "cells mutated_store 0 \<noteq> cells callers_store 0"
    by (simp add: mutated_store_def engines_store_def callers_store_def logged_store_def
        logged_conf_def demo_store_def demo_conf_def)
  with engine_configuration_is_private [OF built agree] show ?thesis by simp
qed

text \<open>
  C6, as the code has it. There is no cache: the field \<^verbatim>\<open>structTypeCache\<close> is never read
  and never filled, so a traversal, and the resolution of a Property list, is the same
  whatever the field holds. Each time dispatch hands a struct to the container binding
  bound for the kind struct, the Property list is resolved anew from the value at hand
  before the binding is called: by a call of the configured Propertier, in the caller's
  state as it is then, or, when none is configured, by the enumeration of the exported
  fields of the type of the value.
\<close>

theorem property_list_is_recomputed:
  "Traverse X h (t\<lparr>structTypeCache := c\<rparr>) obj w = Traverse X h t obj w
   \<and> container_size h (t\<lparr>structTypeCache := c\<rparr>) KStruct val w = container_size h t KStruct val w
   \<and> (IsValid val \<longrightarrow>
        container_size h t KStruct val w =
          (case (case engine_conf h t of None \<Rightarrow> None | Some cf \<Rightarrow> Propertier cf) of
             Some P \<Rightarrow> (case P val w of (r, w') \<Rightarrow> (Returned r, w'))
           | None \<Rightarrow>
               (case NumField (Type_of val) of
                  None \<Rightarrow> (Panicked ReflectPanic, w)
                | Some n \<Rightarrow>
                    (Returned (int (length (default_properties (t_Fields (Type_of val)) 0)),
                               default_properties (t_Fields (Type_of val)) 0), w))))
   \<and> (IsValid val \<and> (\<forall>i \<in> set (prefixes t). \<not> MatchValue X i val)
        \<and> find (\<lambda>item. snd (snd (snd (match X item val)))) (typeOrder t) = Some item
        \<and> match X item val = (itype, None, KStruct, mt) \<and> kindMethods t KStruct = Some m \<longrightarrow>
        Traveller_call X h t parent val w =
          (case container_size h t KStruct val w of
             (Panicked p, w0) \<Rightarrow> (Panicked p, w0)
           | (Returned (sz, flds), w0) \<Rightarrow>
               call_return itype (Some (new_frame parent val sz flds m))
                 (Call X m (startContainerIns parent (new_frame parent val sz flds m) val) w0)))"
proof (intro conjI impI)
  have a: "agree h (t\<lparr>structTypeCache := c\<rparr>) h t" by (simp add: agree_def engine_conf_def)
  then have "Traveller_traverse X h (t\<lparr>structTypeCache := c\<rparr>) None (ValueOf obj) w
      = Traveller_traverse X h t None (ValueOf obj) w"
    by (rule traversal_store_cong(1))
  then show "Traverse X h (t\<lparr>structTypeCache := c\<rparr>) obj w = Traverse X h t obj w"
    by (simp add: Traverse_def Let_def)
  from a show "container_size h (t\<lparr>structTypeCache := c\<rparr>) KStruct val w
      = container_size h t KStruct val w"
    by (rule container_size_cong)
next
  assume "IsValid val"
  then show "container_size h t KStruct val w =
      (case (case engine_conf h t of None \<Rightarrow> None | Some cf \<Rightarrow> Propertier cf) of
         Some P \<Rightarrow> (case P val w of (r, w') \<Rightarrow> (Returned r, w'))
       | None \<Rightarrow>
           (case NumField (Type_of val) of
              None \<Rightarrow> (Panicked ReflectPanic, w)
            | Some n \<Rightarrow>
                (Returned (int (length (default_properties (t_Fields (Type_of val)) 0)),
                           default_properties (t_Fields (Type_of val)) 0), w)))"
    by (simp add: container_size_def Traveller_structProperties_def engine_conf_def Let_def
        split: option.splits)
next
  assume h: "IsValid val \<and> (\<forall>i \<in> set (prefixes t). \<not> MatchValue X i val)
      \<and> find (\<lambda>item. snd (snd (snd (match X item val)))) (typeOrder t) = Some item
      \<and> match X item val = (itype, None, KStruct, mt) \<and> kindMethods t KStruct = Some m"
  then have p: "find (\<lambda>i. MatchValue X i val) (prefixes t) = None"
    by (simp add: find_None_iff)
  from h p show "Traveller_call X h t parent val w =
      (case container_size h t KStruct val w of
         (Panicked p, w0) \<Rightarrow> (Panicked p, w0)
       | (Returned (sz, flds), w0) \<Rightarrow>
           call_return itype (Some (new_frame parent val sz flds m))
             (Call X m (startContainerIns parent (new_frame parent val sz flds m) val) w0))"
    by (simp add: Traveller_call_def call_item_def containers_def Let_def new_frame_def
        split: prod.splits result.splits)
qed

theorem property_list_is_recomputed_witness:
  "container_size counting_store slices_engine KStruct Inner0 0 = (Returned (0, []), 1)
   \<and> container_size counting_store slices_engine KStruct Inner0 1 = (Returned (0, []), 2)
   \<and> container_size st5 parser5_engine KStruct Inner0 ((), [])
       = (Returned (7, default_properties (t_Fields (Type_of Inner0)) 0), ((), []))
   \<and> Traveller_call (demo stateless) counting_store slices_engine None Inner0 1
       = call_return ForContainer (Some (new_frame None Inner0 0 [] 1))
           (Call (demo stateless) 1 (startContainerIns None (new_frame None Inner0 0 [] 1) Inner0) 2)"
proof -
  have v: "IsValid Inner0" by (simp add: Inner0_def)
  have 1: "(case engine_conf counting_store slices_engine of None \<Rightarrow> None | Some cf \<Rightarrow> Propertier cf)
      = Some counting_propertier"
    by (simp add: engine_conf_def slices_engine_def counting_store_def)
  have 2: "(case engine_conf st5 parser5_engine of None \<Rightarrow> None | Some cf \<Rightarrow> Propertier cf) = None"
    by (simp add: engine_conf_def parser5_engine_def st5_def logged_store_def logged_conf_def
        demo_store_def demo_conf_def)
  have 3: "NumField (Type_of Inner0) = Some 7" by (simp add: NumField_def Inner0_def)
  have n7: "length (default_properties (t_Fields (Type_of Inner0)) 0) = 7" by code_simp
  note T1 = property_list_is_recomputed [where val = Inner0 and h = counting_store
      and t = slices_engine and X = "demo stateless" and parent = None
      and item = "\<lparr>item_i = 1, item_n = ''ForContainerStruct'', item_o = 0, item_t = None,
               item_c = True, item_k = KStruct\<rparr>" and itype = ForContainer and mt = True and m = 1]
  from T1 [where w = 0] v
  have a: "container_size counting_store slices_engine KStruct Inner0 0 = (Returned (0, []), 1)"
    by (simp add: 1 counting_propertier_def)
  from T1 [where w = 1] v
  have b: "container_size counting_store slices_engine KStruct Inner0 1 = (Returned (0, []), 2)"
    by (simp add: 1 counting_propertier_def)
  from property_list_is_recomputed [where val = Inner0 and h = st5 and t = parser5_engine
      and w = "((), [])"] v
  have c: "container_size st5 parser5_engine KStruct Inner0 ((), [])
      = (Returned (7, default_properties (t_Fields (Type_of Inner0)) 0), ((), []))"
    by (simp add: 2 3 n7)
  have p: "\<forall>i \<in> set (prefixes slices_engine). \<not> MatchValue (demo stateless) i Inner0"
    by (simp add: slices_engine_def)
  have f: "find (\<lambda>item. snd (snd (snd (match (demo stateless) item Inner0)))) (typeOrder slices_engine)
      = Some \<lparr>item_i = 1, item_n = ''ForContainerStruct'', item_o = 0, item_t = None,
           item_c = True, item_k = KStruct\<rparr>"
    by (simp add: slices_engine_def demo_def demo_match_def Inner0_def)
  have m: "match (demo stateless) \<lparr>item_i = 1, item_n = ''ForContainerStruct'', item_o = 0,
           item_t = None, item_c = True, item_k = KStruct\<rparr> Inner0 = (ForContainer, None, KStruct, True)"
    by (simp add: demo_def demo_match_def Inner0_def)
  have k: "kindMethods slices_engine KStruct = Some 1" by (simp add: slices_engine_def)
  from T1 [where w = 1] v p f m k
  have "Traveller_call (demo stateless) counting_store slices_engine None Inner0 1 =
      (case container_size counting_store slices_engine KStruct Inner0 1 of
         (Panicked p, w0) \<Rightarrow> (Panicked p, w0)
       | (Returned (sz, flds), w0) \<Rightarrow>
           call_return ForContainer (Some (new_frame None Inner0 sz flds 1))
             (Call (demo stateless) 1 (startContainerIns None (new_frame None Inner0 sz flds 1) Inner0) w0))"
    by blast
  then have d: "Traveller_call (demo stateless) counting_store slices_engine None Inner0 1
      = call_return ForContainer (Some (new_frame None Inner0 0 [] 1))
          (Call (demo stateless) 1 (startContainerIns None (new_frame None Inner0 0 [] 1) Inner0) 2)"
    unfolding b by simp
  show ?thesis by (intro conjI) (rule a b c d)+
qed

text \<open>
  C6 as stated fails: in one traversal of a slice of two structs of the same type the
  Propertier is invoked twice (it counts its invocations in the state, which ends at 2).
\<close>

theorem same_type_resolved_twice:
  "Traverse (demo stateless) counting_store slices_engine
     (Some (SliceV ''[]Inner0'' (Some [Inner0, Inner0]))) 0 = (Returned None, 2)"
  by code_simp

section \<open>The children of a map and of a record\<close>




lemma struct_children_skip:
  "i < length flds \<Longrightarrow> Index (flds ! i) < 0
     \<Longrightarrow> struct_children oldVal flds i = struct_children oldVal flds (Suc i)"
  by (simp add: struct_children_def upt_conv_Cons)

lemma struct_children_step:
  "i < length flds \<Longrightarrow> \<not> Index (flds ! i) < 0
     \<Longrightarrow> struct_children oldVal flds i =
           (int i, Field oldVal (Index (flds ! i))) # struct_children oldVal flds (Suc i)"
  by (simp add: struct_children_def upt_conv_Cons)

lemma struct_children_done: "\<not> i < length flds \<Longrightarrow> struct_children oldVal flds i = []"
  by (simp add: struct_children_def)

lemma walk_fields_visits:
  "flds = structFields nxt
     \<Longrightarrow> walk_fields X h t nxt oldVal i w = visit_children X h t nxt (struct_children oldVal flds i) w"
proof (induction "length flds - i" arbitrary: i nxt w)
  case 0
  then have "\<not> i < length (structFields nxt)" "\<not> i < length flds" by simp_all
  then show ?case by (subst walk_fields.simps) (simp add: struct_children_done)
next
  case (Suc n)
  then have lt: "i < length flds" and n: "n = length flds - Suc i" by simp_all
  note f = Suc.prems
  show ?case
  proof (cases "Index (flds ! i) < 0")
    case True
    with lt f Suc.hyps(1) [OF n f, of w] show ?thesis
      by (subst walk_fields.simps) (simp add: struct_children_skip)
  next
    case keep: False
    show ?thesis
    proof (cases "Field oldVal (Index (flds ! i))")
      case None
      with lt f keep show ?thesis
        by (subst walk_fields.simps) (simp add: struct_children_step)
    next
      case (Some c)
      obtain rc w' where k: "Traveller_traverse X h t (Some (nxt\<lparr>offset := int i\<rparr>)) c w = (rc, w')"
        by (cases "Traveller_traverse X h t (Some (nxt\<lparr>offset := int i\<rparr>)) c w") auto
      have f': "flds = structFields (nxt\<lparr>offset := int i\<rparr>)" using f by simp
      show ?thesis
      proof (cases "rc = Returned None")
        case False
        with lt f keep Some k show ?thesis
          by (subst walk_fields.simps) (simp add: struct_children_step split: result.splits option.splits)
      next
        case True
        with lt f keep Some k Suc.hyps(1) [OF n f', of w'] show ?thesis
          by (subst walk_fields.simps) (simp add: struct_children_step)
      qed
    qed
  qed
qed










text \<open>
  The value of a key that is a NaN is not found: \<^verbatim>\<open>MapIndex\<close> gives the zero Value, and the
  traversal of that value fails with "invalid value in _traverse", after the key has been
  visited at the offset 0.
\<close>

lemma nan_key_value_is_not_found:
  "MapIndex readings (Scalar KFloat64 ''float64'' ''NaN'') = Some Zero
   \<and> fst (Traverse (logged (demo descend_containers)) st1 maps_engine (Some readings) ((), []))
       = Returned (Some (InvalidValueInTraverse (Some (readings_frame\<lparr>offset := 1\<rparr>)) Zero))
   \<and> child_offsets (snd (snd (Traverse (logged (demo descend_containers)) st1 maps_engine
         (Some readings) ((), [])))) = [0]"
  by code_simp




lemma map_fst_struct_children:
  "map fst (concat (map (\<lambda>j. if Index (flds ! j) < 0 then []
                              else [(int j, Field oldVal (Index (flds ! j)))]) js))
     = map int (filter (\<lambda>j. \<not> Index (flds ! j) < 0) js)"
  by (induction js) simp_all

text \<open>
  C5, as the code has it. Walking a record visits the Properties of the resolved list in
  the order of the list; a Property with a negative storage index causes no child visit;
  the offset of each visited child is the position of its Property in the list. So a
  skipped Property keeps its position, and the offsets seen by the children after it are
  not contiguous with those before it.
\<close>

theorem struct_children_keep_their_positions:
  assumes "Kind_of oldVal = KStruct"
  shows "walk_children X h t nxt oldVal w
           = visit_children X h t nxt (struct_children oldVal (structFields nxt) 0) w
       \<and> map fst (struct_children oldVal (structFields nxt) 0)
           = map int (filter (\<lambda>j. \<not> Index (structFields nxt ! j) < 0) [0..<length (structFields nxt)])"
proof -
  from assms have "walk_children X h t nxt oldVal w = walk_fields X h t nxt oldVal 0 w"
    by (subst walk_children.simps) simp
  with walk_fields_visits [OF refl, of X h t nxt oldVal 0 w] show ?thesis
    by (simp add: struct_children_def map_fst_struct_children)
qed

theorem struct_children_keep_their_positions_witness:
  "walk_children (logged (demo descend_containers)) skipping_store parser5_engine skipping_frame
       Inner0 ((), [])
     = visit_children (logged (demo descend_containers)) skipping_store parser5_engine skipping_frame
         (struct_children Inner0 (structFields skipping_frame) 0) ((), [])
   \<and> map fst (struct_children Inner0 (structFields skipping_frame) 0) = [0, 2]"
proof -
  have k: "Kind_of Inner0 = KStruct" by (simp add: Inner0_def)
  have "map int (filter (\<lambda>j. \<not> Index (structFields skipping_frame ! j) < 0)
      [0..<length (structFields skipping_frame)]) = [0, 2]"
    by code_simp
  with struct_children_keep_their_positions [OF k, of "logged (demo descend_containers)"
      skipping_store parser5_engine skipping_frame "((), [])"]
  show ?thesis by simp
qed

text \<open>
  C5 as stated fails: with the Property list \<open>[A, (skipped), E]\<close> the two visited children
  see the offsets 0 and 2.
\<close>

theorem skipped_property_consumes_offset:
  "child_offsets (snd (snd (Traverse (logged (demo descend_containers)) skipping_store
       parser5_engine (Some Inner0) ((), [])))) = [0, 2]
   \<and> fst (Traverse (logged (demo descend_containers)) skipping_store
       parser5_engine (Some Inner0) ((), [])) = Returned None"
  by code_simp

section \<open>Container-end notifications\<close>













end
